theory Spec2Isabelle
  imports Main
begin

section \<open>Data model\<close>

text \<open>
  A cell is a Python tuple \<open>(row, col)\<close> of unbounded integers; a ship is a pair
  \<open>(start, end)\<close> of cells. Nothing in the code restricts a cell to the board, so the
  model keeps \<open>int\<close> coordinates and states bounds only where the code tests them.
\<close>

type_synonym cell = "int \<times> int"
type_synonym ship = "cell \<times> cell"

definition BOARD_SIZE :: int where
  "BOARD_SIZE = 10"

definition SHIP_SIZES :: "int list" where
  "SHIP_SIZES = [4, 3, 3, 2, 2, 2, 1, 1, 1, 1]"

text \<open>
  Every \<open>raise\<close> of the source is one constructor, named after the place that raises. All of
  them are Python's \<open>ValueError\<close> except \<open>GenerationFailed\<close>, which is the \<open>RuntimeError\<close> of
  \<open>generate_bot_ships\<close>. The message texts are not modelled; the ship number of a placement
  message is kept.
\<close>

datatype error =
    InvalidFormat
  | RowOutOfRange
  | ColumnNotNumeric
  | ColumnOutOfRange
  | NotStraight
  | InvalidSize nat
  | Overlap nat
  | TooClose nat
  | WrongCount
  | SizeMismatch
  | AlreadyShot
  | GenerationFailed

section \<open>Geometry (utils.py)\<close>

text \<open>
  \<open>get_ship_cells\<close>: \<open>range(min(c1, c2), max(c1, c2) + 1)\<close> is the inclusive interval
  \<open>[min c1 c2..max c1 c2]\<close>.
\<close>

fun get_ship_cells :: "cell \<Rightarrow> cell \<Rightarrow> error + cell list" where
  "get_ship_cells (r1, c1) (r2, c2) =
     (if r1 = r2 then Inr (map (\<lambda>c. (r1, c)) [min c1 c2..max c1 c2])
      else if c1 = c2 then Inr (map (\<lambda>r. (r, c1)) [min r1 r2..max r1 r2])
      else Inl NotStraight)"

text \<open>
  \<open>get_adjacent_cells\<close>: the three nested loops over the cells and the offsets
  \<open>dr, dc \<in> [-1, 0, 1]\<close>, with the source's three tests in the source's order. The result
  is a Python set, so the order of the additions is immaterial.
\<close>

definition get_adjacent_cells :: "cell list \<Rightarrow> cell set" where
  "get_adjacent_cells cells =
     set [(r + dr, c + dc).
            (r, c) \<leftarrow> cells, dr \<leftarrow> [-1, 0, 1], dc \<leftarrow> [-1, 0, 1],
            \<not> (dr = 0 \<and> dc = 0),
            0 \<le> r + dr \<and> r + dr < BOARD_SIZE \<and> 0 \<le> c + dc \<and> c + dc < BOARD_SIZE,
            (r + dr, c + dc) \<notin> set cells]"

section \<open>Placement validator (utils.py)\<close>

text \<open>
  The body of the \<open>for i, (start, end) in enumerate(ships)\<close> loop, with the running set
  \<open>all_cells\<close> as accumulator. \<open>cells\<close> is the Python set of the ship's cells and
  \<open>ship_size\<close> its cardinality. The source calls \<open>get_adjacent_cells(list(cells))\<close>, a list
  of the same cells in an unspecified order; \<open>get_adjacent_cells\<close> depends on the set of its
  argument only (lemma \<open>get_adjacent_cells_cong\<close> below), so the model passes the list it
  has.
\<close>

fun validate_loop :: "nat \<Rightarrow> cell set \<Rightarrow> ship list \<Rightarrow> error + cell set" where
  "validate_loop i all_cells [] = Inr all_cells"
| "validate_loop i all_cells ((start, end) # rest) =
     (case get_ship_cells start end of
        Inl e \<Rightarrow> Inl e
      | Inr cs \<Rightarrow>
          if int (card (set cs)) \<notin> set SHIP_SIZES then Inl (InvalidSize (i + 1))
          else if all_cells \<inter> set cs \<noteq> {} then Inl (Overlap (i + 1))
          else if all_cells \<inter> get_adjacent_cells cs \<noteq> {} then Inl (TooClose (i + 1))
          else validate_loop (i + 1) (all_cells \<union> set cs) rest)"

text \<open>The list comprehension \<open>[len(get_ship_cells(s, e)) for s, e in ships]\<close>.\<close>

fun ship_lengths :: "ship list \<Rightarrow> error + int list" where
  "ship_lengths [] = Inr []"
| "ship_lengths ((s, e) # rest) =
     (case get_ship_cells s e of
        Inl er \<Rightarrow> Inl er
      | Inr cs \<Rightarrow>
          (case ship_lengths rest of
             Inl er \<Rightarrow> Inl er
           | Inr ls \<Rightarrow> Inr (int (length cs) # ls)))"

definition validate_ship_placement :: "ship list \<Rightarrow> bool \<Rightarrow> error + bool" where
  "validate_ship_placement ships final_check =
     (case validate_loop 0 {} ships of
        Inl e \<Rightarrow> Inl e
      | Inr all_cells \<Rightarrow>
          if final_check then
            if length ships \<noteq> length SHIP_SIZES then Inl WrongCount
            else
              (case ship_lengths ships of
                 Inl e \<Rightarrow> Inl e
               | Inr actual_sizes \<Rightarrow>
                   if sort actual_sizes \<noteq> sort SHIP_SIZES then Inl SizeMismatch
                   else Inr True)
          else Inr True)"

section \<open>Board (gameplay.py)\<close>

record GameBoard =
  ships :: "ship list"
  ship_cells :: "cell set"
  hits :: "cell set"
  misses :: "cell set"
  destroyed_zones :: "cell set"

text \<open>The loop of \<open>__init__\<close> that fills \<open>ship_cells\<close>; it raises on a ship that is not straight.\<close>

fun collect_ship_cells :: "cell set \<Rightarrow> ship list \<Rightarrow> error + cell set" where
  "collect_ship_cells acc [] = Inr acc"
| "collect_ship_cells acc ((start, end) # rest) =
     (case get_ship_cells start end of
        Inl e \<Rightarrow> Inl e
      | Inr cs \<Rightarrow> collect_ship_cells (acc \<union> set cs) rest)"

definition GameBoard_init :: "ship list \<Rightarrow> error + GameBoard" where
  "GameBoard_init ss =
     (case collect_ship_cells {} ss of
        Inl e \<Rightarrow> Inl e
      | Inr sc \<Rightarrow>
          Inr \<lparr>ships = ss, ship_cells = sc, hits = {}, misses = {}, destroyed_zones = {}\<rparr>)"

text \<open>
  The methods mutate the board and may raise after having mutated it, so each one returns
  the board as it is when the call ends, together with the outcome.
  \<open>_check_destroyed_ships\<close> walks the ships in order; a ship that is not straight raises
  and leaves the zones of the ships before it in place.
\<close>

fun check_destroyed_loop :: "ship list \<Rightarrow> GameBoard \<Rightarrow> GameBoard \<times> error option" where
  "check_destroyed_loop [] b = (b, None)"
| "check_destroyed_loop ((start, end) # rest) b =
     (case get_ship_cells start end of
        Inl e \<Rightarrow> (b, Some e)
      | Inr cs \<Rightarrow>
          if set cs \<subseteq> hits b then
            check_destroyed_loop rest
              (b\<lparr>destroyed_zones := destroyed_zones b \<union> (get_adjacent_cells cs - set cs)\<rparr>)
          else check_destroyed_loop rest b)"

definition check_destroyed_ships :: "GameBoard \<Rightarrow> GameBoard \<times> error option" where
  "check_destroyed_ships b = check_destroyed_loop (ships b) b"

definition record_shot :: "GameBoard \<Rightarrow> int \<Rightarrow> int \<Rightarrow> GameBoard \<times> (error + bool)" where
  "record_shot b row col =
     (let cell = (row, col) in
      if cell \<in> hits b \<or> cell \<in> misses b \<or> cell \<in> destroyed_zones b then
        (b, Inl AlreadyShot)
      else if cell \<in> ship_cells b then
        (case check_destroyed_ships (b\<lparr>hits := insert cell (hits b)\<rparr>) of
           (b', Some e) \<Rightarrow> (b', Inl e)
         | (b', None) \<Rightarrow> (b', Inr True))
      else (b\<lparr>misses := insert cell (misses b)\<rparr>, Inr False))"

fun ships_remaining_loop :: "cell set \<Rightarrow> ship list \<Rightarrow> error + bool" where
  "ships_remaining_loop hs [] = Inr False"
| "ships_remaining_loop hs ((start, end) # rest) =
     (case get_ship_cells start end of
        Inl e \<Rightarrow> Inl e
      | Inr cs \<Rightarrow>
          if \<not> set cs \<subseteq> hs then Inr True else ships_remaining_loop hs rest)"

definition has_ships_remaining :: "GameBoard \<Rightarrow> error + bool" where
  "has_ships_remaining b = ships_remaining_loop (hits b) (ships b)"

text \<open>
  A board as the program can hold it: built by the constructor and then shot at any number of
  times, each shot succeeding or failing.
\<close>

fun shoot_all :: "GameBoard \<Rightarrow> cell list \<Rightarrow> GameBoard" where
  "shoot_all b [] = b"
| "shoot_all b ((row, col) # rest) = shoot_all (fst (record_shot b row col)) rest"

section \<open>Python string primitives\<close>

text \<open>
  A Python string is modelled as an Isabelle string with one \<open>char\<close> per code point, so the
  model covers the text whose code points are at most \<open>U+00FF\<close>. On this text the
  definitions below give \<open>str.strip\<close>, \<open>int\<close> and \<open>str\<close> as CPython 3.11 computes them, and
  \<open>str.upper\<close> with one exception that is stated there.

  \<open>str.strip()\<close> removes the characters for which \<open>str.isspace\<close> holds: tab, line feed,
  vertical tab, form feed, carriage return, the four separators \<open>0x1C..0x1F\<close>, space, next
  line \<open>U+0085\<close> and no-break space \<open>U+00A0\<close>.
\<close>

definition str_isspace :: "char \<Rightarrow> bool" where
  "str_isspace ch =
     ((of_char ch :: nat) \<in> {9, 10, 11, 12, 13, 28, 29, 30, 31, 32, 133, 160})"

definition strip :: "string \<Rightarrow> string" where
  "strip s = rev (dropWhile str_isspace (rev (dropWhile str_isspace s)))"

text \<open>
  \<open>str.upper()\<close>: the letters \<open>a\<close> to \<open>z\<close> and \<open>U+00E0\<close> to \<open>U+00FE\<close>, the division sign
  \<open>U+00F7\<close> excepted, move down by 32, and the sharp s \<open>U+00DF\<close> becomes the two letters
  \<open>SS\<close>. The upper-case forms of the micro sign \<open>U+00B5\<close> and of \<open>U+00FF\<close> are \<open>U+039C\<close>
  and \<open>U+0178\<close>, which a \<open>char\<close> cannot hold; the model leaves these two characters as
  they are. Like their upper-case forms they are above \<open>J\<close>, no whitespace and no digit,
  which is all that \<open>parse_coordinates\<close> asks of a character.
\<close>

definition upper_char :: "char \<Rightarrow> char" where
  "upper_char ch =
     (if 97 \<le> (of_char ch :: nat) \<and> (of_char ch :: nat) \<le> 122 \<or>
         224 \<le> (of_char ch :: nat) \<and> (of_char ch :: nat) \<le> 254 \<and> (of_char ch :: nat) \<noteq> 247
      then char_of ((of_char ch :: nat) - 32) else ch)"

definition upper :: "string \<Rightarrow> string" where
  "upper s =
     concat (map (\<lambda>ch. if (of_char ch :: nat) = 223 then ''SS'' else [upper_char ch]) s)"

text \<open>
  \<open>int(s)\<close> in base 10: whitespace around the literal is skipped (tab, line feed, vertical
  tab, form feed, carriage return, space, \<open>U+0085\<close> and \<open>U+00A0\<close>, but not the separators
  \<open>0x1C..0x1F\<close>), then comes an optional sign, then decimal digits, where a single
  underscore may stand between two digits. Leading zeros are accepted. A literal with more
  digits than \<open>sys.int_info.default_max_str_digits\<close>, leading zeros counted and underscores
  not, is refused. \<open>None\<close> is the \<open>ValueError\<close> that \<open>int\<close> raises in all these cases.
\<close>

definition int_isspace :: "char \<Rightarrow> bool" where
  "int_isspace ch = ((of_char ch :: nat) \<in> {9, 10, 11, 12, 13, 32, 133, 160})"

definition is_digit :: "char \<Rightarrow> bool" where
  "is_digit ch = (48 \<le> (of_char ch :: nat) \<and> (of_char ch :: nat) \<le> 57)"

definition digit_val :: "char \<Rightarrow> int" where
  "digit_val ch = int (of_char ch) - 48"

definition int_max_str_digits :: nat where
  "int_max_str_digits = 4300"

fun parse_digits :: "int \<Rightarrow> string \<Rightarrow> int option" where
  "parse_digits acc [] = Some acc"
| "parse_digits acc (ch # rest) =
     (if is_digit ch then parse_digits (10 * acc + digit_val ch) rest
      else if ch = CHR ''_'' then
        (case rest of
           [] \<Rightarrow> None
         | d # ds \<Rightarrow>
             if is_digit d then parse_digits (10 * acc + digit_val d) ds else None)
      else None)"

definition parse_unsigned :: "string \<Rightarrow> int option" where
  "parse_unsigned s =
     (case s of
        [] \<Rightarrow> None
      | ch # rest \<Rightarrow>
          if is_digit ch then
            (case parse_digits (digit_val ch) rest of
               None \<Rightarrow> None
             | Some v \<Rightarrow>
                 if length (filter is_digit s) > int_max_str_digits then None else Some v)
          else None)"

definition python_int :: "string \<Rightarrow> int option" where
  "python_int s =
     (case rev (dropWhile int_isspace (rev (dropWhile int_isspace s))) of
        [] \<Rightarrow> None
      | ch # rest \<Rightarrow>
          if ch = CHR ''+'' then parse_unsigned rest
          else if ch = CHR ''-'' then map_option uminus (parse_unsigned rest)
          else parse_unsigned (ch # rest))"

text \<open>
  \<open>str(n)\<close>, as the f-string formats an integer: decimal digits, \<open>-\<close> before a negative
  one. It is used on column numbers of the board; \<open>str\<close> raises on an integer of more than
  \<open>int_max_str_digits\<close> digits, which is outside this definition.
\<close>

fun str_nat :: "nat \<Rightarrow> string" where
  "str_nat n =
     (if n < 10 then [char_of (48 + n)]
      else str_nat (n div 10) @ [char_of (48 + n mod 10)])"

definition python_str :: "int \<Rightarrow> string" where
  "python_str i = (if i < 0 then CHR ''-'' # str_nat (nat (- i)) else str_nat (nat i))"

section \<open>Coordinate codec (utils.py)\<close>

text \<open>
  \<open>row_char < 'A' or row_char > 'J'\<close> compares one-character strings, that is code points.
\<close>

definition parse_coordinates :: "string \<Rightarrow> error + cell" where
  "parse_coordinates text_in =
     (let coord_str = upper (strip text_in) in
      if length coord_str < 2 then Inl InvalidFormat
      else
        (case coord_str of
           [] \<Rightarrow> Inl InvalidFormat
         | row_char # col_str \<Rightarrow>
             if (of_char row_char :: nat) < 65 \<or> (of_char row_char :: nat) > 74
             then Inl RowOutOfRange
             else
               (case python_int col_str of
                  None \<Rightarrow> Inl ColumnNotNumeric
                | Some n \<Rightarrow>
                    let col = n - 1 in
                    if col < 0 \<or> col \<ge> BOARD_SIZE then Inl ColumnOutOfRange
                    else Inr (int (of_char row_char) - 65, col))))"

text \<open>
  \<open>chr(ord('A') + row)\<close> is modelled for the rows whose letter is a code point up to
  \<open>U+00FF\<close>, which covers all the rows of the board; the program formats board cells only,
  apart from the text of the already-shot message, which is not modelled.
\<close>

definition format_coordinates :: "int \<Rightarrow> int \<Rightarrow> string" where
  "format_coordinates row col = char_of (65 + row) # python_str (col + 1)"

section \<open>Random source\<close>

text \<open>
  The global generator of the \<open>random\<close> module is made explicit as a list of raw draws, one
  consumed by each call. \<open>random.randint(a, b)\<close> returns some integer of \<open>[a, b]\<close> and
  \<open>random.choice(xs)\<close> some element of \<open>xs\<close>; every such outcome is the image of a raw draw,
  and nothing else about the generator is used. The source calls them with \<open>a \<le> b\<close> and a
  list that is not empty.
\<close>

definition randint :: "int \<Rightarrow> int \<Rightarrow> nat \<Rightarrow> int" where
  "randint a b n = a + int (n mod nat (b - a + 1))"

definition choice :: "'a list \<Rightarrow> nat \<Rightarrow> 'a" where
  "choice xs n = xs ! (n mod length xs)"

section \<open>Game loop (gameplay.py)\<close>

text \<open>One dictionary of \<open>move_history\<close>; \<open>turn_no\<close> is its key \<open>'turn'\<close>.\<close>

record move =
  turn_no :: int
  player_move :: string
  player_hit :: string
  bot_move :: string
  bot_hit :: string

record GameState =
  player_board :: GameBoard
  bot_board :: GameBoard
  turn :: int
  move_history :: "move list"

definition log_move :: "GameState \<Rightarrow> int \<Rightarrow> string \<Rightarrow> bool \<Rightarrow> string \<Rightarrow> bool \<Rightarrow> GameState" where
  "log_move gs t player_coord p_hit bot_coord b_hit =
     gs\<lparr>move_history := move_history gs @
       [\<lparr>turn_no = t,
         player_move = player_coord,
         player_hit = (if p_hit then ''hit'' else ''miss''),
         bot_move = bot_coord,
         bot_hit = (if b_hit then ''hit'' else ''miss'')\<rparr>]\<rparr>"

text \<open>
  Console input is a list of the lines the player types; \<open>None\<close> means that the lines (or the
  raw draws) ran out before the function returned. Printing, drawing the boards and writing
  the CSV file read the state only and are left out.
\<close>

fun get_player_move :: "string list \<Rightarrow> (cell \<times> string list) option" where
  "get_player_move [] = None"
| "get_player_move (line # rest) =
     (case parse_coordinates (upper (strip line)) of
        Inl e \<Rightarrow> get_player_move rest
      | Inr c \<Rightarrow> Some (c, rest))"

text \<open>
  The player's inner loop of \<open>play_game\<close>: read a move, shoot at the bot's board, and start
  over on any \<open>ValueError\<close>, keeping the board as the failed call left it. It returns the
  board, \<open>player_hit\<close>, \<open>player_move_str\<close> and the lines not yet read.
\<close>

function player_turn :: "GameBoard \<Rightarrow> string list \<Rightarrow> (GameBoard \<times> bool \<times> string \<times> string list) option" where
  "player_turn b ls =
     (case get_player_move ls of
        None \<Rightarrow> None
      | Some ((row, col), rest) \<Rightarrow>
          (case record_shot b row col of
             (b', Inl e) \<Rightarrow> player_turn b' rest
           | (b', Inr p_hit) \<Rightarrow> Some (b', p_hit, format_coordinates row col, rest)))"
  by pat_completeness auto
termination
proof (relation "measure (\<lambda>(b, ls). length ls)")
  have shorter: "length rest < length ls" if "get_player_move ls = Some (c, rest)"
    for ls :: "string list" and c rest
    using that by (induction ls) (auto split: sum.splits)
  fix b :: GameBoard and ls x2 x y row col rest b' r e
  assume "get_player_move ls = Some x2" and "(x, rest) = x2"
  then have "length rest < length ls"
    using shorter [of ls x rest] by simp
  then show "((b', rest), (b, ls)) \<in> measure (\<lambda>(b, ls). length ls)"
    by simp
qed simp

text \<open>
  The bot's inner loop: draw a row and a column, shoot at the player's board, and draw again
  on \<open>ValueError\<close>.
\<close>

fun bot_turn :: "GameBoard \<Rightarrow> nat list \<Rightarrow> (GameBoard \<times> bool \<times> string \<times> nat list) option" where
  "bot_turn b (n1 # n2 # rest) =
     (let row = randint 0 (BOARD_SIZE - 1) n1;
          col = randint 0 (BOARD_SIZE - 1) n2
      in case record_shot b row col of
           (b', Inl e) \<Rightarrow> bot_turn b' rest
         | (b', Inr b_hit) \<Rightarrow> Some (b', b_hit, format_coordinates row col, rest))"
| "bot_turn b rs = None"

declare player_turn.simps [simp del]

text \<open>
  The \<open>while True\<close> loop of \<open>play_game\<close>. An exception that \<open>play_game\<close> does not catch (a
  \<open>ValueError\<close> of \<open>has_ships_remaining\<close>) ends it with \<open>Inl\<close>; a win returns the winner
  and the final state.
\<close>

function play_loop :: "GameState \<Rightarrow> string list \<Rightarrow> nat list \<Rightarrow> (error + string \<times> GameState) option" where
  "play_loop gs ls rs =
     (let gs1 = gs\<lparr>turn := turn gs + 1\<rparr> in
      case player_turn (bot_board gs1) ls of
        None \<Rightarrow> None
      | Some (bb, p_hit, player_move_str, ls') \<Rightarrow>
          let gs2 = gs1\<lparr>bot_board := bb\<rparr> in
          (case has_ships_remaining (bot_board gs2) of
             Inl e \<Rightarrow> Some (Inl e)
           | Inr False \<Rightarrow>
               Some (Inr (''player'', log_move gs2 (turn gs2) player_move_str p_hit [] False))
           | Inr True \<Rightarrow>
               (case bot_turn (player_board gs2) rs of
                  None \<Rightarrow> None
                | Some (pb, b_hit, bot_move_str, rs') \<Rightarrow>
                    let gs3 = gs2\<lparr>player_board := pb\<rparr> in
                    (case has_ships_remaining (player_board gs3) of
                       Inl e \<Rightarrow> Some (Inl e)
                     | Inr False \<Rightarrow>
                         Some (Inr (''bot'',
                           log_move gs3 (turn gs3) player_move_str p_hit bot_move_str b_hit))
                     | Inr True \<Rightarrow>
                         play_loop
                           (log_move gs3 (turn gs3) player_move_str p_hit bot_move_str b_hit)
                           ls' rs'))))"
  by pat_completeness auto
termination
proof (relation "measure (\<lambda>(gs, ls, rs). length ls)")
  have shorter: "length rest < length ls" if "get_player_move ls = Some (c, rest)"
    for ls :: "string list" and c rest
    using that by (induction ls) (auto split: sum.splits)
  have turn_shorter: "player_turn b ls = Some out \<Longrightarrow> length (snd (snd (snd out))) < length ls"
    for b ls out
  proof (induction b ls rule: player_turn.induct)
    case (1 b ls)
    show ?case
    proof (cases "get_player_move ls")
      case None
      with "1.prems" show ?thesis by (simp add: player_turn.simps)
    next
      case (Some a)
      obtain row col rest0 where a: "a = ((row, col), rest0)" by (cases a) auto
      have short: "length rest0 < length ls"
        using Some a shorter by blast
      obtain b1 res where rs: "record_shot b row col = (b1, res)"
        by (cases "record_shot b row col")
      show ?thesis
      proof (cases res)
        case (Inl e)
        have "player_turn b1 rest0 = Some out"
          using "1.prems" Some a rs Inl by (simp add: player_turn.simps)
        then have "length (snd (snd (snd out))) < length rest0"
          using "1.IH" [OF Some a [symmetric] refl rs [symmetric] Inl] by simp
        with short show ?thesis by simp
      next
        case (Inr hit)
        with "1.prems" Some a rs have "snd (snd (snd out)) = rest0"
          by (auto simp add: player_turn.simps)
        with short show ?thesis by simp
      qed
    qed
  qed
  fix gs :: GameState and ls :: "string list" and rs :: "nat list"
  fix gs1 x2 bb y p_hit z player_move_str ls'
  assume "gs1 = gs\<lparr>turn := turn gs + 1\<rparr>"
    and "player_turn (bot_board gs1) ls = Some x2"
    and "(bb, y) = x2" and "(p_hit, z) = y" and "(player_move_str, ls') = z"
  then have "length ls' < length ls"
    using turn_shorter [of "bot_board gs1" ls x2] by auto
  then show "((g, ls', r), (gs, ls, rs)) \<in> measure (\<lambda>(gs, ls, rs). length ls)" for g r
    by simp
qed simp

declare play_loop.simps [simp del]

definition play_game :: "GameBoard \<Rightarrow> GameBoard \<Rightarrow> string list \<Rightarrow> nat list \<Rightarrow> (error + string \<times> GameState) option" where
  "play_game pb bb ls rs =
     play_loop \<lparr>player_board = pb, bot_board = bb, turn = 0, move_history = []\<rparr> ls rs"

section \<open>Random placement generator (bot_generation.py)\<close>

text \<open>The three accumulators of one fleet attempt.\<close>

record placement =
  placed_ships :: "ship list"
  all_cells :: "cell set"
  all_adjacent :: "cell set"

text \<open>
  The \<open>while not placed and attempts < max_placement_attempts\<close> loop, counted down by the
  attempts that are left. It returns \<open>placed\<close>, the accumulators and the draws not yet used;
  an uncaught \<open>ValueError\<close> of \<open>get_ship_cells\<close> leaves the generator.
\<close>

fun place_ship :: "nat \<Rightarrow> int \<Rightarrow> placement \<Rightarrow> nat list \<Rightarrow> (error + bool \<times> placement \<times> nat list) option" where
  "place_ship 0 ship_size st rs = Some (Inr (False, st, rs))"
| "place_ship (Suc k) ship_size st (n1 # n2 # n3 # rest) =
     (let horizontal = choice [True, False] n1;
          (start, end) =
            (if horizontal then
               (let row = randint 0 (BOARD_SIZE - 1) n2;
                    col = randint 0 (BOARD_SIZE - ship_size) n3
                in ((row, col), (row, col + ship_size - 1)))
             else
               (let row = randint 0 (BOARD_SIZE - ship_size) n2;
                    col = randint 0 (BOARD_SIZE - 1) n3
                in ((row, col), (row + ship_size - 1, col))))
      in case get_ship_cells start end of
           Inl e \<Rightarrow> Some (Inl e)
         | Inr cells \<Rightarrow>
             let adjacent = get_adjacent_cells cells in
             if all_cells st \<inter> set cells = {} \<and> all_adjacent st \<inter> adjacent = {} then
               Some (Inr (True,
                 \<lparr>placed_ships = placed_ships st @ [(start, end)],
                  all_cells = all_cells st \<union> set cells,
                  all_adjacent = all_adjacent st \<union> adjacent\<rparr>, rest))
             else place_ship k ship_size st rest)"
| "place_ship (Suc k) ship_size st rs = None"

text \<open>The \<open>for ship_size in SHIP_SIZES\<close> loop; it returns \<open>valid\<close> with the accumulators.\<close>

fun place_fleet :: "int list \<Rightarrow> placement \<Rightarrow> nat list \<Rightarrow> (error + bool \<times> placement \<times> nat list) option" where
  "place_fleet [] st rs = Some (Inr (True, st, rs))"
| "place_fleet (ship_size # sizes) st rs =
     (case place_ship 100 ship_size st rs of
        None \<Rightarrow> None
      | Some (Inl e) \<Rightarrow> Some (Inl e)
      | Some (Inr (placed, st', rs')) \<Rightarrow>
          if \<not> placed then Some (Inr (False, st', rs'))
          else place_fleet sizes st' rs')"

text \<open>
  The \<open>for attempt in range(max_attempts)\<close> loop, counted down; when it is used up the
  function raises \<open>RuntimeError\<close>.
\<close>

fun generate_loop :: "nat \<Rightarrow> nat list \<Rightarrow> (error + ship list) option" where
  "generate_loop 0 rs = Some (Inl GenerationFailed)"
| "generate_loop (Suc k) rs =
     (case place_fleet SHIP_SIZES \<lparr>placed_ships = [], all_cells = {}, all_adjacent = {}\<rparr> rs of
        None \<Rightarrow> None
      | Some (Inl e) \<Rightarrow> Some (Inl e)
      | Some (Inr (valid, st, rs')) \<Rightarrow>
          if valid then
            (case validate_ship_placement (placed_ships st) True of
               Inr ok \<Rightarrow> Some (Inr (placed_ships st))
             | Inl e \<Rightarrow> generate_loop k rs')
          else generate_loop k rs')"

definition generate_bot_ships :: "int \<Rightarrow> nat list \<Rightarrow> (error + ship list) option" where
  "generate_bot_ships max_attempts rs = generate_loop (nat max_attempts) rs"

section \<open>Notions used to state the properties\<close>

text \<open>
  The cell set of a ship (empty for a ship that is not straight, which has none), the cells
  of a fleet, the adjacency halo of a ship as \<open>_check_destroyed_ships\<close> computes it, the
  bounds of the board, and 8-directional adjacency of two cells.
\<close>

definition cells_of :: "ship \<Rightarrow> cell set" where
  "cells_of sh = (case get_ship_cells (fst sh) (snd sh) of Inl e \<Rightarrow> {} | Inr cs \<Rightarrow> set cs)"

definition fleet_cells :: "ship list \<Rightarrow> cell set" where
  "fleet_cells ss = (\<Union>sh \<in> set ss. cells_of sh)"

definition halo_of :: "ship \<Rightarrow> cell set" where
  "halo_of sh =
     (case get_ship_cells (fst sh) (snd sh) of
        Inl e \<Rightarrow> {}
      | Inr cs \<Rightarrow> get_adjacent_cells cs - set cs)"

definition in_bounds :: "cell \<Rightarrow> bool" where
  "in_bounds x = (0 \<le> fst x \<and> fst x < BOARD_SIZE \<and> 0 \<le> snd x \<and> snd x < BOARD_SIZE)"

definition adjacent8 :: "cell \<Rightarrow> cell \<Rightarrow> bool" where
  "adjacent8 x y = (x \<noteq> y \<and> \<bar>fst x - fst y\<bar> \<le> 1 \<and> \<bar>snd x - snd y\<bar> \<le> 1)"

text \<open>
  A valid coordinate string in the sense of the specification: one of the letters \<open>A\<close> to
  \<open>J\<close> in either case, followed by the decimal numeral of an integer from 1 to 10. Its
  canonical uppercase form is its \<open>upper\<close>.
\<close>

definition valid_coordinate_string :: "string \<Rightarrow> bool" where
  "valid_coordinate_string s =
     (case s of
        [] \<Rightarrow> False
      | l # ds \<Rightarrow>
          l \<in> set ''ABCDEFGHIJabcdefghij'' \<and> ds \<in> set (map python_str [1..10]))"

text \<open>
  The invariant of a board that the constructor built: every ship of the fleet is straight,
  \<open>ship_cells\<close> is the union of the ships' cell sets, every hit is a ship cell and no miss
  is one. \<open>hit_word\<close> holds of the two words that \<open>log_move\<close> writes.
\<close>

definition straight :: "ship \<Rightarrow> bool" where
  "straight sh = (case get_ship_cells (fst sh) (snd sh) of Inl e \<Rightarrow> False | Inr cs \<Rightarrow> True)"

definition board_inv :: "GameBoard \<Rightarrow> bool" where
  "board_inv b =
     ((\<forall>sh \<in> set (ships b). straight sh) \<and> ship_cells b = fleet_cells (ships b) \<and>
      hits b \<subseteq> ship_cells b \<and> misses b \<inter> ship_cells b = {})"

definition hit_word :: "string \<Rightarrow> bool" where
  "hit_word w = (w = ''hit'' \<or> w = ''miss'')"

section \<open>Concrete inputs\<close>

text \<open>
  Two small boards as the constructor builds them: one ship of two cells, A1 to A2, and one
  ship of the single cell A1. \<open>won_state\<close> is the state in which \<open>play_game\<close> ends when the
  player sinks the single-cell ship with the first shot.
\<close>

definition example_board :: GameBoard where
  "example_board =
     \<lparr>ships = [((0, 0), (0, 1))], ship_cells = {(0, 0), (0, 1)},
      hits = {}, misses = {}, destroyed_zones = {}\<rparr>"

definition one_cell_board :: GameBoard where
  "one_cell_board =
     \<lparr>ships = [((0, 0), (0, 0))], ship_cells = {(0, 0)},
      hits = {}, misses = {}, destroyed_zones = {}\<rparr>"

definition won_state :: GameState where
  "won_state =
     \<lparr>player_board = example_board,
      bot_board =
        \<lparr>ships = [((0, 0), (0, 0))], ship_cells = {(0, 0)},
         hits = {(0, 0)}, misses = {}, destroyed_zones = {(0, 1), (1, 0), (1, 1)}\<rparr>,
      turn = 1,
      move_history =
        [\<lparr>turn_no = 1, player_move = ''A1'', player_hit = ''hit'',
          bot_move = [], bot_hit = ''miss''\<rparr>]\<rparr>"

text \<open>
  A fleet that lies on the board and passes the final check, the board the constructor
  builds from it, and the raw draws that make the generator place this fleet at the first
  attempt: for each ship a horizontal orientation, its row and its first column.
\<close>

definition example_fleet :: "ship list" where
  "example_fleet =
     [((0, 0), (0, 3)), ((0, 6), (0, 8)), ((3, 0), (3, 2)), ((3, 5), (3, 6)), ((6, 0), (6, 1)),
      ((6, 4), (6, 5)), ((3, 9), (3, 9)), ((6, 8), (6, 8)), ((9, 0), (9, 0)), ((9, 3), (9, 3))]"

definition example_fleet_board :: GameBoard where
  "example_fleet_board =
     \<lparr>ships = example_fleet, ship_cells = fleet_cells example_fleet,
      hits = {}, misses = {}, destroyed_zones = {}\<rparr>"

definition example_draws :: "nat list" where
  "example_draws =
     [0, 0, 0,  0, 0, 6,  0, 3, 0,  0, 3, 5,  0, 6, 0,  0, 6, 4,  0, 3, 9,  0, 6, 8,
      0, 9, 0,  0, 9, 3]"

section \<open>The board: construction and shots\<close>

lemma straight_cells: "straight (s, e) \<Longrightarrow> get_ship_cells s e = Inr cs \<Longrightarrow> cells_of (s, e) = set cs"
  by (simp add: cells_of_def)

lemma straightE: "straight (s, e) \<Longrightarrow> \<exists>cs. get_ship_cells s e = Inr cs"
  by (auto simp: straight_def split: sum.splits)

lemma collect_ship_cells_eq:
  "collect_ship_cells acc ss = Inr sc \<Longrightarrow>
     sc = acc \<union> fleet_cells ss \<and> (\<forall>sh \<in> set ss. straight sh)"
proof (induction ss arbitrary: acc)
  case Nil
  then show ?case by (simp add: fleet_cells_def)
next
  case (Cons sh ss)
  obtain s e where sh: "sh = (s, e)" by (cases sh)
  from Cons.prems sh obtain cs where cs: "get_ship_cells s e = Inr cs"
    and rest: "collect_ship_cells (acc \<union> set cs) ss = Inr sc"
    by (auto split: sum.splits)
  from Cons.IH [OF rest] cs sh show ?case
    by (auto simp: fleet_cells_def cells_of_def straight_def)
qed

lemma GameBoard_init_inv: "GameBoard_init ss = Inr b \<Longrightarrow> board_inv b \<and> ships b = ss \<and> hits b = {} \<and> misses b = {} \<and> destroyed_zones b = {}"
  by (auto simp: GameBoard_init_def board_inv_def split: sum.splits dest: collect_ship_cells_eq)

lemma check_destroyed_loop_fields:
  "check_destroyed_loop ss b = (b', r) \<Longrightarrow>
     ships b' = ships b \<and> ship_cells b' = ship_cells b \<and> hits b' = hits b \<and>
     misses b' = misses b \<and> destroyed_zones b \<subseteq> destroyed_zones b'"
proof (induction ss arbitrary: b)
  case Nil
  then show ?case by simp
next
  case (Cons sh ss)
  obtain s e where sh: "sh = (s, e)" by (cases sh)
  show ?case
  proof (cases "get_ship_cells s e")
    case (Inl er)
    with Cons.prems sh show ?thesis by simp
  next
    case (Inr cs)
    show ?thesis
    proof (cases "set cs \<subseteq> hits b")
      case True
      with Cons.prems sh Inr
      have "check_destroyed_loop ss
              (b\<lparr>destroyed_zones := destroyed_zones b \<union> (get_adjacent_cells cs - set cs)\<rparr>) = (b', r)"
        by simp
      from Cons.IH [OF this] show ?thesis by auto
    next
      case False
      with Cons.prems sh Inr have "check_destroyed_loop ss b = (b', r)" by simp
      from Cons.IH [OF this] show ?thesis .
    qed
  qed
qed

lemma check_destroyed_loop_ok:
  "\<forall>sh \<in> set ss. straight sh \<Longrightarrow> snd (check_destroyed_loop ss b) = None"
proof (induction ss arbitrary: b)
  case Nil
  then show ?case by simp
next
  case (Cons sh ss)
  obtain s e where sh: "sh = (s, e)" by (cases sh)
  from Cons.prems sh have "straight (s, e)" by simp
  then obtain cs where "get_ship_cells s e = Inr cs"
    using straightE by blast
  with Cons sh show ?case by simp
qed

lemma record_shot_already:
  "(row, col) \<in> hits b \<union> misses b \<union> destroyed_zones b \<Longrightarrow>
     record_shot b row col = (b, Inl AlreadyShot)"
  by (simp add: record_shot_def)

lemma record_shot_miss:
  "(row, col) \<notin> hits b \<union> misses b \<union> destroyed_zones b \<Longrightarrow> (row, col) \<notin> ship_cells b \<Longrightarrow>
     record_shot b row col = (b\<lparr>misses := insert (row, col) (misses b)\<rparr>, Inr False)"
  by (simp add: record_shot_def)

lemma record_shot_hit:
  "(row, col) \<notin> hits b \<union> misses b \<union> destroyed_zones b \<Longrightarrow> (row, col) \<in> ship_cells b \<Longrightarrow>
     check_destroyed_loop (ships b) (b\<lparr>hits := insert (row, col) (hits b)\<rparr>) = (b1, r) \<Longrightarrow>
     record_shot b row col = (b1, case r of Some e \<Rightarrow> Inl e | None \<Rightarrow> Inr True)"
  by (simp add: record_shot_def check_destroyed_ships_def split: option.splits)

lemma record_shot_cases:
  assumes "record_shot b row col = (b', res)"
  obtains
    (already) "(row, col) \<in> hits b \<union> misses b \<union> destroyed_zones b" "b' = b" "res = Inl AlreadyShot"
  | (hit) r where "(row, col) \<notin> hits b \<union> misses b \<union> destroyed_zones b"
      "(row, col) \<in> ship_cells b"
      "check_destroyed_loop (ships b) (b\<lparr>hits := insert (row, col) (hits b)\<rparr>) = (b', r)"
      "res = (case r of Some e \<Rightarrow> Inl e | None \<Rightarrow> Inr True)"
  | (miss) "(row, col) \<notin> hits b \<union> misses b \<union> destroyed_zones b"
      "(row, col) \<notin> ship_cells b" "b' = b\<lparr>misses := insert (row, col) (misses b)\<rparr>"
      "res = Inr False"
proof (cases "(row, col) \<in> hits b \<union> misses b \<union> destroyed_zones b")
  case True
  from record_shot_already [OF True] assms have "b' = b" "res = Inl AlreadyShot"
    by simp_all
  with True show ?thesis by (rule already)
next
  case False
  show ?thesis
  proof (cases "(row, col) \<in> ship_cells b")
    case True
    obtain b1 r where l: "check_destroyed_loop (ships b) (b\<lparr>hits := insert (row, col) (hits b)\<rparr>) = (b1, r)"
      by (cases "check_destroyed_loop (ships b) (b\<lparr>hits := insert (row, col) (hits b)\<rparr>)")
    from record_shot_hit [OF False True l] assms
    have eq: "b' = b1" "res = (case r of Some e \<Rightarrow> Inl e | None \<Rightarrow> Inr True)"
      by simp_all
    from l eq(1) have "check_destroyed_loop (ships b) (b\<lparr>hits := insert (row, col) (hits b)\<rparr>) = (b', r)"
      by simp
    with False True show ?thesis using eq(2) by (rule hit)
  next
    case nsc: False
    from record_shot_miss [OF False nsc] assms
    have "b' = b\<lparr>misses := insert (row, col) (misses b)\<rparr>" "res = Inr False"
      by simp_all
    with False nsc show ?thesis by (rule miss)
  qed
qed

lemma record_shot_fields:
  assumes "record_shot b row col = (b', res)"
  shows "ships b' = ships b \<and> ship_cells b' = ship_cells b \<and> hits b \<subseteq> hits b' \<and>
     misses b \<subseteq> misses b' \<and> destroyed_zones b \<subseteq> destroyed_zones b'"
  using assms
proof (cases rule: record_shot_cases)
  case already
  then show ?thesis by simp
next
  case (hit r)
  from check_destroyed_loop_fields [OF hit(3)] show ?thesis by auto
next
  case miss
  then show ?thesis by auto
qed

lemma record_shot_inv:
  assumes "board_inv b" and "record_shot b row col = (b', res)"
  shows "board_inv b'"
  using assms(2)
proof (cases rule: record_shot_cases)
  case already
  with assms show ?thesis by simp
next
  case (hit r)
  from check_destroyed_loop_fields [OF hit(3)] hit(1,2) assms(1) show ?thesis
    by (auto simp: board_inv_def)
next
  case miss
  with assms(1) show ?thesis by (auto simp: board_inv_def)
qed

lemma shoot_all_inv: "board_inv b \<Longrightarrow> board_inv (shoot_all b shots)"
proof (induction shots arbitrary: b)
  case Nil
  then show ?case by simp
next
  case (Cons x xs)
  obtain row col where x: "x = (row, col)" by (cases x)
  obtain b1 res where rs: "record_shot b row col = (b1, res)"
    by (cases "record_shot b row col")
  from record_shot_inv [OF Cons.prems rs] have "board_inv b1" .
  from Cons.IH [OF this] x rs show ?case by simp
qed

lemma shoot_all_ships: "ships (shoot_all b shots) = ships b"
proof (induction shots arbitrary: b)
  case Nil
  then show ?case by simp
next
  case (Cons x xs)
  obtain row col where x: "x = (row, col)" by (cases x)
  obtain b1 res where rs: "record_shot b row col = (b1, res)"
    by (cases "record_shot b row col")
  from record_shot_fields [OF rs] have "ships b1 = ships b" by simp
  with Cons.IH [of b1] x rs show ?case by simp
qed

lemma halo_comprehension:
  "x \<in> set [(r + dr, c + dc). (r, c) \<leftarrow> cells, dr \<leftarrow> ds, dc \<leftarrow> ds,
            \<not> (dr = 0 \<and> dc = 0), B r c dr dc, (r + dr, c + dc) \<notin> S] \<longleftrightarrow>
   (\<exists>r c dr dc. (r, c) \<in> set cells \<and> dr \<in> set ds \<and> dc \<in> set ds \<and> \<not> (dr = 0 \<and> dc = 0) \<and>
      B r c dr dc \<and> (r + dr, c + dc) \<notin> S \<and> x = (r + dr, c + dc))"
  by (auto split: if_splits) blast+

lemma get_adjacent_cells_iff:
  "x \<in> get_adjacent_cells cells \<longleftrightarrow>
     in_bounds x \<and> x \<notin> set cells \<and> (\<exists>y \<in> set cells. adjacent8 y x)"
proof
  assume "x \<in> get_adjacent_cells cells"
  then obtain r c dr dc where m: "(r, c) \<in> set cells"
    and d: "dr \<in> set [-1, 0, 1]" "dc \<in> set [-1, 0, 1]" "\<not> (dr = 0 \<and> dc = 0)"
    and bd: "0 \<le> r + dr \<and> r + dr < BOARD_SIZE \<and> 0 \<le> c + dc \<and> c + dc < BOARD_SIZE"
    and nin: "(r + dr, c + dc) \<notin> set cells" and x: "x = (r + dr, c + dc)"
    unfolding get_adjacent_cells_def halo_comprehension by blast
  from d x have "adjacent8 (r, c) x" by (auto simp: adjacent8_def)
  with m bd nin x show "in_bounds x \<and> x \<notin> set cells \<and> (\<exists>y \<in> set cells. adjacent8 y x)"
    by (auto simp: in_bounds_def)
next
  assume a: "in_bounds x \<and> x \<notin> set cells \<and> (\<exists>y \<in> set cells. adjacent8 y x)"
  then obtain y where y: "y \<in> set cells" "adjacent8 y x" by blast
  obtain r c where yc: "y = (r, c)" by (cases y)
  obtain r' c' where xc: "x = (r', c')" by (cases x)
  from y(2) yc xc have d: "r' - r \<in> set [-1, 0, 1]" "c' - c \<in> set [-1, 0, 1]"
      "\<not> (r' - r = 0 \<and> c' - c = 0)"
    by (auto simp: adjacent8_def)
  have e: "x = (r + (r' - r), c + (c' - c))" using xc by simp
  from a xc have bd: "0 \<le> r + (r' - r) \<and> r + (r' - r) < BOARD_SIZE \<and> 0 \<le> c + (c' - c) \<and> c + (c' - c) < BOARD_SIZE"
    and nin: "(r + (r' - r), c + (c' - c)) \<notin> set cells"
    by (auto simp: in_bounds_def)
  show "x \<in> get_adjacent_cells cells"
    unfolding get_adjacent_cells_def halo_comprehension
    using y(1) yc d bd nin e by blast
qed

lemma get_adjacent_cells_cong:
  "set xs = set ys \<Longrightarrow> get_adjacent_cells xs = get_adjacent_cells ys"
  by (auto simp: get_adjacent_cells_iff)

lemma check_destroyed_loop_zone:
  "check_destroyed_loop ss b = (b', r) \<Longrightarrow> r = None \<Longrightarrow> (s, e) \<in> set ss \<Longrightarrow>
     get_ship_cells s e = Inr cs \<Longrightarrow> set cs \<subseteq> hits b \<Longrightarrow>
     get_adjacent_cells cs - set cs \<subseteq> destroyed_zones b'"
proof (induction ss arbitrary: b)
  case Nil
  then show ?case by simp
next
  case (Cons sh ss)
  obtain s1 e1 where sh: "sh = (s1, e1)" by (cases sh)
  from Cons.prems(1,2) sh obtain cs1 where cs1: "get_ship_cells s1 e1 = Inr cs1"
    by (cases "get_ship_cells s1 e1") auto
  let ?b1 = "if set cs1 \<subseteq> hits b
             then b\<lparr>destroyed_zones := destroyed_zones b \<union> (get_adjacent_cells cs1 - set cs1)\<rparr>
             else b"
  have step: "check_destroyed_loop ss ?b1 = (b', r)"
    using Cons.prems(1) sh cs1 by (auto split: if_splits)
  have h1: "hits ?b1 = hits b" by simp
  show ?case
  proof (cases "(s, e) = (s1, e1)")
    case True
    with cs1 Cons.prems(4) have "cs1 = cs" by simp
    with Cons.prems(5) have "get_adjacent_cells cs - set cs \<subseteq> destroyed_zones ?b1"
      by auto
    moreover from check_destroyed_loop_fields [OF step]
    have "destroyed_zones ?b1 \<subseteq> destroyed_zones b'" by blast
    ultimately show ?thesis by blast
  next
    case False
    with Cons.prems(3) sh have "(s, e) \<in> set ss" by auto
    from Cons.IH [OF step Cons.prems(2) this Cons.prems(4)] Cons.prems(5) h1
    show ?thesis by simp
  qed
qed

lemma ships_remaining_loop_eq:
  "\<forall>sh \<in> set ss. straight sh \<Longrightarrow>
     ships_remaining_loop hs ss = Inr (\<exists>sh \<in> set ss. \<not> cells_of sh \<subseteq> hs)"
proof (induction ss)
  case Nil
  then show ?case by simp
next
  case (Cons sh ss)
  obtain s e where sh: "sh = (s, e)" by (cases sh)
  from Cons.prems sh have "straight (s, e)" by simp
  then obtain cs where cs: "get_ship_cells s e = Inr cs" using straightE by blast
  then have c: "cells_of (s, e) = set cs" by (simp add: cells_of_def)
  from Cons sh cs c show ?case by simp
qed

section \<open>The validator\<close>

lemma get_ship_cells_distinct: "get_ship_cells s e = Inr cs \<Longrightarrow> distinct cs"
  by (cases s; cases e) (auto simp: distinct_map inj_on_def split: if_splits)

lemma get_ship_cells_size: "get_ship_cells s e = Inr cs \<Longrightarrow> card (set cs) = length cs"
  by (simp add: get_ship_cells_distinct distinct_card)

lemma fleet_cells_Cons: "fleet_cells (sh # ss) = cells_of sh \<union> fleet_cells ss"
  by (simp add: fleet_cells_def)

lemma fleet_cells_Nil: "fleet_cells [] = {}"
  by (simp add: fleet_cells_def)

lemma cells_of_in_fleet: "k < length ss \<Longrightarrow> cells_of (ss ! k) \<subseteq> fleet_cells ss"
  unfolding fleet_cells_def using nth_mem [of k ss] by blast

lemma cells_of_in_take: "i < k \<Longrightarrow> k \<le> length ss \<Longrightarrow> cells_of (ss ! i) \<subseteq> fleet_cells (take k ss)"
  using cells_of_in_fleet [of i "take k ss"] by simp

lemma validate_loop_sound:
  "validate_loop i acc ss = Inr acc' \<Longrightarrow>
     (\<forall>sh \<in> set ss. straight sh \<and> int (card (cells_of sh)) \<in> set SHIP_SIZES) \<and>
     (\<forall>k < length ss.
        cells_of (ss ! k) \<inter> (acc \<union> fleet_cells (take k ss)) = {} \<and>
        (\<forall>x \<in> acc \<union> fleet_cells (take k ss). \<forall>y \<in> cells_of (ss ! k).
           in_bounds x \<longrightarrow> \<not> adjacent8 y x))"
proof (induction ss arbitrary: i acc)
  case Nil
  then show ?case by simp
next
  case (Cons sh ss)
  obtain s e where sh: "sh = (s, e)" by (cases sh)
  from Cons.prems sh obtain cs where cs: "get_ship_cells s e = Inr cs"
    by (cases "get_ship_cells s e") auto
  have c: "cells_of sh = set cs" using sh cs by (simp add: cells_of_def)
  have st: "straight sh" using sh cs by (simp add: straight_def)
  from Cons.prems sh cs have sz: "int (card (set cs)) \<in> set SHIP_SIZES"
    and ov: "acc \<inter> set cs = {}" and adj: "acc \<inter> get_adjacent_cells cs = {}"
    and rest: "validate_loop (i + 1) (acc \<union> set cs) ss = Inr acc'"
    by (auto split: if_splits)
  note IH = Cons.IH [OF rest]
  have head: "\<forall>x \<in> acc. \<forall>y \<in> set cs. in_bounds x \<longrightarrow> \<not> adjacent8 y x"
  proof (intro ballI impI notI)
    fix x y assume "x \<in> acc" "y \<in> set cs" "in_bounds x" "adjacent8 y x"
    moreover from \<open>x \<in> acc\<close> ov have "x \<notin> set cs" by blast
    ultimately have "x \<in> get_adjacent_cells cs" by (auto simp: get_adjacent_cells_iff)
    with \<open>x \<in> acc\<close> adj show False by blast
  qed
  show ?case
  proof (intro conjI ballI allI impI)
    fix sh' assume "sh' \<in> set (sh # ss)"
    with IH st show "straight sh'" by auto
  next
    fix sh' assume "sh' \<in> set (sh # ss)"
    with IH sz c show "int (card (cells_of sh')) \<in> set SHIP_SIZES" by auto
  next
    fix k assume k: "k < length (sh # ss)"
    show "cells_of ((sh # ss) ! k) \<inter> (acc \<union> fleet_cells (take k (sh # ss))) = {}"
    proof (cases k)
      case 0
      with ov c show ?thesis by (simp add: fleet_cells_Nil Int_commute)
    next
      case (Suc k')
      with k IH have "cells_of (ss ! k') \<inter> (acc \<union> set cs \<union> fleet_cells (take k' ss)) = {}"
        by simp
      with Suc c show ?thesis by (simp add: fleet_cells_Cons Un_assoc)
    qed
  next
    fix k x y
    assume k: "k < length (sh # ss)"
      and x: "x \<in> acc \<union> fleet_cells (take k (sh # ss))"
      and y: "y \<in> cells_of ((sh # ss) ! k)" and b: "in_bounds x"
    show "\<not> adjacent8 y x"
    proof (cases k)
      case 0
      with x y c head b show ?thesis by (simp add: fleet_cells_Nil)
    next
      case (Suc k')
      from Suc x c have "x \<in> acc \<union> set cs \<union> fleet_cells (take k' ss)"
        by (auto simp: fleet_cells_Cons)
      moreover from Suc y have "y \<in> cells_of (ss ! k')" by simp
      moreover from Suc k have "k' < length ss" by simp
      ultimately show ?thesis using IH b by blast
    qed
  qed
qed

lemma adjacent8_sym: "adjacent8 x y \<Longrightarrow> adjacent8 y x"
  by (auto simp: adjacent8_def)

lemma validate_loop_pairwise:
  assumes "validate_loop i0 {} ss = Inr acc'" and "i < length ss" and "j < length ss" and "i \<noteq> j"
  shows "cells_of (ss ! i) \<inter> cells_of (ss ! j) = {}"
    and "(\<forall>x \<in> fleet_cells ss. in_bounds x) \<Longrightarrow> x \<in> cells_of (ss ! i) \<Longrightarrow> y \<in> cells_of (ss ! j) \<Longrightarrow>
           \<not> adjacent8 x y"
proof -
  note s = validate_loop_sound [OF assms(1)]
  have less: "cells_of (ss ! a) \<inter> cells_of (ss ! b) = {}"
    "\<And>u v. u \<in> cells_of (ss ! a) \<Longrightarrow> v \<in> cells_of (ss ! b) \<Longrightarrow> in_bounds u \<Longrightarrow> \<not> adjacent8 v u"
    if "a < b" "b < length ss" for a b
  proof -
    from that have sub: "cells_of (ss ! a) \<subseteq> fleet_cells (take b ss)"
      by (simp add: cells_of_in_take)
    from s that(2) have d: "cells_of (ss ! b) \<inter> ({} \<union> fleet_cells (take b ss)) = {}"
      by blast
    with sub show "cells_of (ss ! a) \<inter> cells_of (ss ! b) = {}" by blast
    fix u v assume "u \<in> cells_of (ss ! a)" "v \<in> cells_of (ss ! b)" "in_bounds u"
    with s that(2) sub show "\<not> adjacent8 v u" by blast
  qed
  from assms(4) consider "i < j" | "j < i" by linarith
  then show "cells_of (ss ! i) \<inter> cells_of (ss ! j) = {}"
    using less(1) [of i j] less(1) [of j i] assms(2,3) by (cases) blast+
  assume ib: "\<forall>x \<in> fleet_cells ss. in_bounds x" and x: "x \<in> cells_of (ss ! i)" and y: "y \<in> cells_of (ss ! j)"
  from x y assms(2,3) ib have bx: "in_bounds x" and byy: "in_bounds y"
    using cells_of_in_fleet by blast+
  from assms(4) consider "i < j" | "j < i" by linarith
  then show "\<not> adjacent8 x y"
  proof cases
    case 1
    from less(2) [OF 1 assms(3) x y bx] show ?thesis using adjacent8_sym by blast
  next
    case 2
    from less(2) [OF 2 assms(2) y x byy] show ?thesis .
  qed
qed

lemma ship_lengths_eq:
  "ship_lengths ss = Inr ls \<Longrightarrow> ls = map (\<lambda>sh. int (card (cells_of sh))) ss"
proof (induction ss arbitrary: ls)
  case Nil
  then show ?case by simp
next
  case (Cons sh ss)
  obtain s e where sh: "sh = (s, e)" by (cases sh)
  from Cons.prems sh obtain cs ls' where cs: "get_ship_cells s e = Inr cs"
    and r: "ship_lengths ss = Inr ls'" and l: "ls = int (length cs) # ls'"
    by (auto split: sum.splits)
  from cs sh have "int (card (cells_of sh)) = int (length cs)"
    by (simp add: cells_of_def get_ship_cells_size)
  with Cons.IH [OF r] l show ?case by simp
qed

section \<open>Destroyed zones\<close>

lemma check_destroyed_loop_zone_sub:
  "check_destroyed_loop ss b = (b', r) \<Longrightarrow>
     destroyed_zones b' \<subseteq> destroyed_zones b \<union> (\<Union>sh \<in> set ss. halo_of sh)"
proof (induction ss arbitrary: b)
  case Nil
  then show ?case by simp
next
  case (Cons sh ss)
  obtain s e where sh: "sh = (s, e)" by (cases sh)
  show ?case
  proof (cases "get_ship_cells s e")
    case (Inl er)
    with Cons.prems sh show ?thesis by auto
  next
    case (Inr cs)
    then have h: "halo_of sh = get_adjacent_cells cs - set cs"
      using sh by (simp add: halo_of_def)
    let ?b1 = "if set cs \<subseteq> hits b
               then b\<lparr>destroyed_zones := destroyed_zones b \<union> (get_adjacent_cells cs - set cs)\<rparr>
               else b"
    have step: "check_destroyed_loop ss ?b1 = (b', r)"
      using Cons.prems sh Inr by (auto split: if_splits)
    have "destroyed_zones ?b1 \<subseteq> destroyed_zones b \<union> halo_of sh"
      using h by auto
    with Cons.IH [OF step] show ?thesis by auto
  qed
qed

lemma record_shot_zone_sub:
  assumes "record_shot b row col = (b', res)"
  shows "destroyed_zones b' \<subseteq> destroyed_zones b \<union> (\<Union>sh \<in> set (ships b). halo_of sh)"
  using assms
proof (cases rule: record_shot_cases)
  case already
  then show ?thesis by simp
next
  case (hit r)
  from check_destroyed_loop_zone_sub [OF hit(3)] show ?thesis by simp
next
  case miss
  then show ?thesis by simp
qed

lemma shoot_all_zone_sub:
  "destroyed_zones (shoot_all b shots) \<subseteq> destroyed_zones b \<union> (\<Union>sh \<in> set (ships b). halo_of sh)"
proof (induction shots arbitrary: b)
  case Nil
  then show ?case by simp
next
  case (Cons x xs)
  obtain row col where x: "x = (row, col)" by (cases x)
  obtain b1 res where rs: "record_shot b row col = (b1, res)"
    by (cases "record_shot b row col")
  from record_shot_fields [OF rs] have sh: "ships b1 = ships b" by simp
  from Cons.IH [of b1] sh record_shot_zone_sub [OF rs] x rs show ?case by auto
qed

lemma shoot_all_mono:
  "hits b \<subseteq> hits (shoot_all b shots) \<and> misses b \<subseteq> misses (shoot_all b shots) \<and>
   destroyed_zones b \<subseteq> destroyed_zones (shoot_all b shots)"
proof (induction shots arbitrary: b)
  case Nil
  then show ?case by simp
next
  case (Cons x xs)
  obtain row col where x: "x = (row, col)" by (cases x)
  obtain b1 res where rs: "record_shot b row col = (b1, res)"
    by (cases "record_shot b row col")
  from Cons.IH [of b1] record_shot_fields [OF rs] x rs show ?case by auto
qed

lemma halo_of_iff:
  "x \<in> halo_of sh \<longleftrightarrow> in_bounds x \<and> x \<notin> cells_of sh \<and> (\<exists>y \<in> cells_of sh. adjacent8 y x)"
  by (cases "get_ship_cells (fst sh) (snd sh)")
     (auto simp: halo_of_def cells_of_def get_adjacent_cells_iff)

lemma no_hit_in_halo:
  assumes v: "validate_loop i0 {} ss = Inr acc'" and ib: "\<forall>x \<in> fleet_cells ss. in_bounds x"
    and sh: "sh \<in> set ss"
  shows "halo_of sh \<inter> fleet_cells ss = {}"
proof (rule ccontr)
  assume "halo_of sh \<inter> fleet_cells ss \<noteq> {}"
  then obtain x where xh: "x \<in> halo_of sh" and xf: "x \<in> fleet_cells ss" by blast
  from sh obtain i where i: "i < length ss" "ss ! i = sh" by (auto simp: in_set_conv_nth)
  from xf obtain sh' where "sh' \<in> set ss" "x \<in> cells_of sh'" by (auto simp: fleet_cells_def)
  then obtain j where j: "j < length ss" "ss ! j = sh'" by (auto simp: in_set_conv_nth)
  from xh obtain y where y: "y \<in> cells_of sh" "adjacent8 y x" and nx: "x \<notin> cells_of sh"
    by (auto simp: halo_of_iff)
  from nx \<open>x \<in> cells_of sh'\<close> i j have "i \<noteq> j" by auto
  from validate_loop_pairwise(2) [OF v i(1) j(1) this ib, of y x] y i j \<open>x \<in> cells_of sh'\<close>
  show False by simp
qed

section \<open>The coordinate codec\<close>

lemma row_letter_iff:
  "ch \<in> set ''ABCDEFGHIJ'' \<longleftrightarrow> 65 \<le> (of_char ch :: nat) \<and> (of_char ch :: nat) \<le> 74"
proof
  assume "ch \<in> set ''ABCDEFGHIJ''"
  then show "65 \<le> (of_char ch :: nat) \<and> (of_char ch :: nat) \<le> 74" by auto
next
  assume a: "65 \<le> (of_char ch :: nat) \<and> (of_char ch :: nat) \<le> 74"
  define n where "n = (of_char ch :: nat)"
  from a have "n = 65 \<or> n = 66 \<or> n = 67 \<or> n = 68 \<or> n = 69 \<or> n = 70 \<or> n = 71 \<or> n = 72 \<or>
      n = 73 \<or> n = 74"
    unfolding n_def by arith
  then have "n = of_char CHR ''A'' \<or> n = of_char CHR ''B'' \<or> n = of_char CHR ''C'' \<or>
      n = of_char CHR ''D'' \<or> n = of_char CHR ''E'' \<or> n = of_char CHR ''F'' \<or>
      n = of_char CHR ''G'' \<or> n = of_char CHR ''H'' \<or> n = of_char CHR ''I'' \<or>
      n = of_char CHR ''J''"
    by simp
  then have "ch = CHR ''A'' \<or> ch = CHR ''B'' \<or> ch = CHR ''C'' \<or> ch = CHR ''D'' \<or> ch = CHR ''E'' \<or>
      ch = CHR ''F'' \<or> ch = CHR ''G'' \<or> ch = CHR ''H'' \<or> ch = CHR ''I'' \<or> ch = CHR ''J''"
    unfolding n_def of_char_eq_iff .
  then show "ch \<in> set ''ABCDEFGHIJ''"
    by auto
qed

lemma parse_coordinates_iff:
  "parse_coordinates s = Inr (r, c) \<longleftrightarrow>
     (\<exists>ch rest n. upper (strip s) = ch # rest \<and> ch \<in> set ''ABCDEFGHIJ'' \<and>
        python_int rest = Some n \<and> 1 \<le> n \<and> n \<le> 10 \<and>
        r = int (of_char ch) - 65 \<and> c = n - 1)"
proof (cases "upper (strip s)")
  case Nil
  then show ?thesis by (simp add: parse_coordinates_def)
next
  case (Cons ch rest)
  note us = Cons
  have letter: "(ch \<in> set ''ABCDEFGHIJ'') = (\<not> ((of_char ch :: nat) < 65 \<or> (of_char ch :: nat) > 74))"
    unfolding row_letter_iff by auto
  show ?thesis
  proof (cases rest)
    case Nil
    have "python_int [] = None" by (simp add: python_int_def)
    with us Nil show ?thesis by (simp add: parse_coordinates_def)
  next
    case (Cons d ds)
    with us have len: "\<not> length (upper (strip s)) < 2" by simp
    show ?thesis
    proof (cases "python_int rest")
      case None
      with us len show ?thesis
        by (simp add: parse_coordinates_def)
    next
      case (Some n)
      have "parse_coordinates s =
          (if (of_char ch :: nat) < 65 \<or> (of_char ch :: nat) > 74 then Inl RowOutOfRange
           else if n - 1 < 0 \<or> n - 1 \<ge> 10 then Inl ColumnOutOfRange
           else Inr (int (of_char ch) - 65, n - 1))"
        using us len Some by (simp add: parse_coordinates_def Let_def BOARD_SIZE_def)
      moreover have "(\<exists>ch' rest' n'. upper (strip s) = ch' # rest' \<and> ch' \<in> set ''ABCDEFGHIJ'' \<and>
        python_int rest' = Some n' \<and> 1 \<le> n' \<and> n' \<le> 10 \<and>
        r = int (of_char ch') - 65 \<and> c = n' - 1) \<longleftrightarrow>
        (ch \<in> set ''ABCDEFGHIJ'' \<and> 1 \<le> n \<and> n \<le> 10 \<and> r = int (of_char ch) - 65 \<and> c = n - 1)"
        using us Some by auto
      ultimately show ?thesis
        unfolding letter by auto
    qed
  qed
qed

lemma dropWhile_keep: "xs \<noteq> [] \<Longrightarrow> \<not> P (hd xs) \<Longrightarrow> dropWhile P xs = xs"
  by (cases xs) auto

lemma strip_pad:
  assumes "\<forall>ch \<in> set ws1. str_isspace ch" and "\<forall>ch \<in> set ws2. str_isspace ch"
    and "body \<noteq> []" and "\<not> str_isspace (hd body)" and "\<not> str_isspace (last body)"
  shows "strip (ws1 @ body @ ws2) = body"
proof -
  have "dropWhile str_isspace (ws1 @ body @ ws2) = dropWhile str_isspace (body @ ws2)"
    by (rule dropWhile_append2) (use assms(1) in auto)
  also have "\<dots> = body @ ws2"
    using assms(3,4) by (intro dropWhile_keep) (auto simp: hd_append)
  finally have 1: "dropWhile str_isspace (ws1 @ body @ ws2) = body @ ws2" .
  have "dropWhile str_isspace (rev ws2 @ rev body) = dropWhile str_isspace (rev body)"
    by (rule dropWhile_append2) (use assms(2) in auto)
  then have "dropWhile str_isspace (rev (body @ ws2)) = dropWhile str_isspace (rev body)"
    by simp
  also have "\<dots> = rev body"
    using assms(3,5) by (intro dropWhile_keep) (auto simp: hd_rev)
  finally show ?thesis using 1 by (simp add: strip_def)
qed

lemma parse_digits_zeros:
  "is_digit d \<Longrightarrow>
     parse_digits 0 (replicate k (CHR ''0'') @ d # ds) = parse_digits (digit_val d) ds"
  by (induction k) (simp_all add: is_digit_def digit_val_def)

lemma zeros_count:
  "length (filter is_digit (replicate k (CHR ''0'') @ s)) = k + length (filter is_digit s)"
  by (simp add: is_digit_def)


lemma parse_unsigned_zeros:
  assumes d: "is_digit d"
    and bound: "k + length (filter is_digit (d # ds)) \<le> int_max_str_digits"
  shows "parse_unsigned (replicate k (CHR ''0'') @ d # ds) = parse_unsigned (d # ds)"
proof (cases k)
  case 0
  then show ?thesis by simp
next
  case (Suc k')
  define t where "t = replicate k' (CHR ''0'') @ d # ds"
  have s: "replicate k (CHR ''0'') @ d # ds = CHR ''0'' # t"
    using Suc by (simp add: t_def)
  have z: "is_digit (CHR ''0'')" "digit_val (CHR ''0'') = 0"
    by (simp_all add: is_digit_def digit_val_def)
  have "length (filter is_digit (CHR ''0'' # t)) = k + length (filter is_digit (d # ds))"
    using zeros_count [of k "d # ds"] s by simp
  with bound have cnt: "\<not> length (filter is_digit (CHR ''0'' # t)) > int_max_str_digits"
    by simp
  have cnt': "\<not> length (filter is_digit (d # ds)) > int_max_str_digits"
    using bound by simp
  have pd: "parse_digits 0 t = parse_digits (digit_val d) ds"
    unfolding t_def by (rule parse_digits_zeros [OF d])
  have "parse_unsigned (CHR ''0'' # t) =
      (case parse_digits 0 t of None \<Rightarrow> None | Some v \<Rightarrow> Some v)"
    unfolding parse_unsigned_def list.case using z cnt by (simp split: option.splits)
  moreover have "parse_unsigned (d # ds) =
      (case parse_digits (digit_val d) ds of None \<Rightarrow> None | Some v \<Rightarrow> Some v)"
    unfolding parse_unsigned_def list.case using d cnt' by (simp split: option.splits)
  ultimately show ?thesis
    using s pd by simp
qed

lemma python_int_nospace:
  assumes "t \<noteq> []" and "\<not> int_isspace (hd t)" and "\<not> int_isspace (last t)"
  shows "python_int t =
     (if hd t = CHR ''+'' then parse_unsigned (tl t)
      else if hd t = CHR ''-'' then map_option uminus (parse_unsigned (tl t))
      else parse_unsigned t)"
proof -
  have "dropWhile int_isspace t = t"
    using assms(1,2) by (rule dropWhile_keep)
  moreover have "dropWhile int_isspace (rev t) = rev t"
    using assms(1,3) by (intro dropWhile_keep) (auto simp: hd_rev)
  ultimately have "rev (dropWhile int_isspace (rev (dropWhile int_isspace t))) = t" by simp
  with assms(1) show ?thesis
    by (cases t) (simp_all add: python_int_def)
qed

lemma numerals:
  "\<forall>n \<in> set [1..10].
     python_str n \<noteq> [] \<and> is_digit (hd (python_str n)) \<and> is_digit (last (python_str n)) \<and>
     upper (python_str n) = python_str n \<and> parse_unsigned (python_str n) = Some n \<and>
     length (filter is_digit (python_str n)) = length (python_str n) \<and>
     length (python_str n) \<le> 2"
  by code_simp

lemma digit_facts:
  "is_digit ch \<Longrightarrow> \<not> str_isspace ch \<and> \<not> int_isspace ch \<and> ch \<noteq> CHR ''+'' \<and> ch \<noteq> CHR ''-'' \<and> upper_char ch = ch"
  by (auto simp: is_digit_def str_isspace_def int_isspace_def upper_char_def)

lemma letters:
  "\<forall>l \<in> set ''ABCDEFGHIJabcdefghij''.
     \<not> str_isspace l \<and> (of_char l :: nat) \<noteq> 223 \<and> upper_char l \<in> set ''ABCDEFGHIJ'' \<and>
     char_of (65 + (int (of_char (upper_char l)) - 65)) = upper_char l"
  by code_simp

lemma upper_append: "upper (a @ b) = upper a @ upper b"
  by (simp add: upper_def)

lemma upper_Cons: "(of_char l :: nat) \<noteq> 223 \<Longrightarrow> upper (l # s) = upper_char l # upper s"
  by (simp add: upper_def)

lemma upper_zeros: "upper (replicate k (CHR ''0'')) = replicate k (CHR ''0'')"
  by (induction k) (simp_all add: upper_def upper_char_def)

lemma upper_sign: "sign = [] \<or> sign = ''+'' \<Longrightarrow> upper sign = sign"
  by (auto simp: upper_def upper_char_def)

lemma python_int_padded:
  assumes n: "n \<in> set [1..10]" and sg: "sign = [] \<or> sign = ''+''"
  shows "python_int (sign @ replicate k (CHR ''0'') @ python_str n) =
           parse_unsigned (replicate k (CHR ''0'') @ python_str n)"
proof -
  let ?ds = "python_str n"
  let ?t = "sign @ replicate k (CHR ''0'') @ ?ds"
  from numerals n have ne: "?ds \<noteq> []" and hd: "is_digit (hd ?ds)" and lst: "is_digit (last ?ds)"
    by blast+
  have hz: "is_digit (hd (replicate k (CHR ''0'') @ ?ds))"
    using hd ne by (cases k) (simp_all add: is_digit_def)
  have t_ne: "?t \<noteq> []" using ne by simp
  have t_last: "\<not> int_isspace (last ?t)"
    using ne lst digit_facts by simp
  from sg show ?thesis
  proof
    assume s: "sign = []"
    with hz digit_facts have "\<not> int_isspace (hd ?t)" "hd ?t \<noteq> CHR ''+''" "hd ?t \<noteq> CHR ''-''"
      by auto
    with python_int_nospace [OF t_ne _ t_last] s show ?thesis by simp
  next
    assume s: "sign = ''+''"
    then have "\<not> int_isspace (hd ?t)" "hd ?t = CHR ''+''" "tl ?t = replicate k (CHR ''0'') @ ?ds"
      by (simp_all add: int_isspace_def)
    with python_int_nospace [OF t_ne _ t_last] show ?thesis by simp
  qed
qed

lemma python_int_padded_numeral:
  assumes n: "n \<in> set [1..10]" and sg: "sign = [] \<or> sign = ''+''"
    and bound: "k + length (python_str n) \<le> int_max_str_digits"
  shows "python_int (sign @ replicate k (CHR ''0'') @ python_str n) = Some n"
proof -
  let ?ds = "python_str n"
  from numerals n have ne: "?ds \<noteq> []" and hd: "is_digit (hd ?ds)"
    and pu: "parse_unsigned ?ds = Some n"
    and cnt: "length (filter is_digit ?ds) = length ?ds"
    by blast+
  from ne obtain d ds' where ds: "?ds = d # ds'" by (cases ?ds) auto
  with hd have d: "is_digit d" by simp
  have "parse_unsigned (replicate k (CHR ''0'') @ d # ds') = parse_unsigned (d # ds')"
    using bound cnt ds by (intro parse_unsigned_zeros [OF d]) simp
  with pu ds python_int_padded [OF n sg, of k] show ?thesis by simp
qed


lemma variant_normal_form:
  assumes l: "l \<in> set ''ABCDEFGHIJabcdefghij''" and n: "n \<in> set [1..10]"
    and w1: "\<forall>ch \<in> set ws1. str_isspace ch" and w2: "\<forall>ch \<in> set ws2. str_isspace ch"
    and sg: "sign = [] \<or> sign = ''+''"
  shows "upper (strip (ws1 @ (l # sign @ replicate k (CHR ''0'') @ python_str n) @ ws2)) =
           upper_char l # (sign @ replicate k (CHR ''0'') @ python_str n)"
proof -
  let ?ds = "python_str n"
  let ?body = "l # sign @ replicate k (CHR ''0'') @ ?ds"
  from numerals n have ne: "?ds \<noteq> []" and lst: "is_digit (last ?ds)" and up: "upper ?ds = ?ds"
    by blast+
  from letters l have lsp: "\<not> str_isspace l" and l223: "(of_char l :: nat) \<noteq> 223"
    by blast+
  have "\<not> str_isspace (last ?body)"
    using ne lst digit_facts by simp
  with strip_pad [OF w1 w2, of ?body] lsp
  have st: "strip (ws1 @ ?body @ ws2) = ?body" by simp
  have "upper ?body = upper_char l # upper sign @ upper (replicate k (CHR ''0'')) @ upper ?ds"
    by (simp add: upper_Cons [OF l223] upper_append)
  with upper_sign [OF sg] upper_zeros [of k] up st show ?thesis by simp
qed

lemma parse_variant:
  assumes l: "l \<in> set ''ABCDEFGHIJabcdefghij''" and n: "n \<in> set [1..10]"
    and w1: "\<forall>ch \<in> set ws1. str_isspace ch" and w2: "\<forall>ch \<in> set ws2. str_isspace ch"
    and sg: "sign = [] \<or> sign = ''+''"
    and bound: "k + length (python_str n) \<le> int_max_str_digits"
  shows "parse_coordinates (ws1 @ (l # sign @ replicate k (CHR ''0'') @ python_str n) @ ws2) =
           Inr (int (of_char (upper_char l)) - 65, n - 1)"
proof -
  from letters l have lup: "upper_char l \<in> set ''ABCDEFGHIJ''" by blast
  from n have rng: "1 \<le> n" "n \<le> 10" by simp_all
  show ?thesis
    unfolding parse_coordinates_iff variant_normal_form [OF l n w1 w2 sg]
    using lup python_int_padded_numeral [OF n sg bound] rng by blast
qed


lemma parse_letter_numeral:
  assumes l: "l \<in> set ''ABCDEFGHIJabcdefghij''" and n: "n \<in> set [1..10]"
  shows "parse_coordinates (l # python_str n) = Inr (int (of_char (upper_char l)) - 65, n - 1)"
proof -
  from numerals n have "length (python_str n) \<le> 2" by blast
  then have "0 + length (python_str n) \<le> int_max_str_digits"
    by (simp add: int_max_str_digits_def)
  from parse_variant [OF l n _ _ _ this, of "[]" "[]" "[]"] show ?thesis by simp
qed

lemma upper_letter_fixed:
  "\<forall>l \<in> set ''ABCDEFGHIJ''. upper_char l = l"
  by code_simp

lemma rows:
  "\<forall>row \<in> set [0..9].
     char_of (65 + row) \<in> set ''ABCDEFGHIJ'' \<and>
     int (of_char (char_of (65 + row) :: char)) - 65 = row"
  by code_simp

section \<open>The game loop and the generator\<close>

lemma get_player_move_shorter:
  "get_player_move ls = Some (c, rest) \<Longrightarrow> length rest < length ls"
  by (induction ls) (auto split: sum.splits)

lemma player_turn_shorter:
  "player_turn b ls = Some (b', h, m, rest) \<Longrightarrow> length rest < length ls"
proof (induction b ls rule: player_turn.induct)
  case (1 b ls)
  show ?case
  proof (cases "get_player_move ls")
    case None
    with "1.prems" show ?thesis by (simp add: player_turn.simps)
  next
    case (Some a)
    obtain row col rest0 where a: "a = ((row, col), rest0)" by (cases a) auto
    have short: "length rest0 < length ls"
      using Some a get_player_move_shorter by blast
    obtain b1 res where rs: "record_shot b row col = (b1, res)"
      by (cases "record_shot b row col")
    show ?thesis
    proof (cases res)
      case (Inl e)
      have "player_turn b1 rest0 = Some (b', h, m, rest)"
        using "1.prems" Some a rs Inl by (simp add: player_turn.simps)
      then have "length rest < length rest0"
        using "1.IH" [OF Some a [symmetric] refl rs [symmetric] Inl] by simp
      with short show ?thesis by simp
    next
      case (Inr hit)
      with "1.prems" Some a rs have "rest = rest0"
        by (simp add: player_turn.simps)
      with short show ?thesis by simp
    qed
  qed
qed

lemma play_loop_cases:
  assumes "play_loop gs ls rs = Some (Inr (w, gs'))"
  obtains
    (player_wins) bb ph pm ls' where
      "player_turn (bot_board gs) ls = Some (bb, ph, pm, ls')"
      "has_ships_remaining bb = Inr False" "w = ''player''"
      "gs' = log_move (gs\<lparr>turn := turn gs + 1, bot_board := bb\<rparr>) (turn gs + 1) pm ph [] False"
  | (bot_wins) bb ph pm ls' pb bh bm rs' where
      "player_turn (bot_board gs) ls = Some (bb, ph, pm, ls')"
      "has_ships_remaining bb = Inr True"
      "bot_turn (player_board gs) rs = Some (pb, bh, bm, rs')"
      "has_ships_remaining pb = Inr False" "w = ''bot''"
      "gs' = log_move (gs\<lparr>turn := turn gs + 1, bot_board := bb, player_board := pb\<rparr>)
               (turn gs + 1) pm ph bm bh"
  | (continue) bb ph pm ls' pb bh bm rs' where
      "player_turn (bot_board gs) ls = Some (bb, ph, pm, ls')"
      "has_ships_remaining bb = Inr True"
      "bot_turn (player_board gs) rs = Some (pb, bh, bm, rs')"
      "has_ships_remaining pb = Inr True"
      "play_loop (log_move (gs\<lparr>turn := turn gs + 1, bot_board := bb, player_board := pb\<rparr>)
               (turn gs + 1) pm ph bm bh) ls' rs' = Some (Inr (w, gs'))"
      "length ls' < length ls"
proof -
  from assms obtain bb ph pm ls' where pt: "player_turn (bot_board gs) ls = Some (bb, ph, pm, ls')"
    by (subst (asm) play_loop.simps) (auto simp: Let_def split: option.splits)
  have short: "length ls' < length ls" using pt by (rule player_turn_shorter)
  from assms pt obtain r1 where h1: "has_ships_remaining bb = Inr r1"
    by (subst (asm) play_loop.simps) (auto simp: Let_def split: sum.splits)
  show ?thesis
  proof (cases r1)
    case False
    with assms pt h1 have "w = ''player''"
      "gs' = log_move (gs\<lparr>turn := turn gs + 1, bot_board := bb\<rparr>) (turn gs + 1) pm ph [] False"
      by (subst (asm) play_loop.simps, simp add: Let_def)+
    with pt h1 False show ?thesis by (auto intro: player_wins)
  next
    case True
    with assms pt h1 obtain pb bh bm rs' where bt: "bot_turn (player_board gs) rs = Some (pb, bh, bm, rs')"
      by (subst (asm) play_loop.simps) (auto simp: Let_def split: option.splits)
    from assms pt h1 True bt obtain r2 where h2: "has_ships_remaining pb = Inr r2"
      by (subst (asm) play_loop.simps) (auto simp: Let_def split: sum.splits)
    show ?thesis
    proof (cases r2)
      case False
      with assms pt h1 True bt h2 have "w = ''bot''"
        "gs' = log_move (gs\<lparr>turn := turn gs + 1, bot_board := bb, player_board := pb\<rparr>)
               (turn gs + 1) pm ph bm bh"
        by (subst (asm) play_loop.simps, simp add: Let_def)+
      with pt h1 True bt h2 False show ?thesis by (auto intro: bot_wins)
    next
      case r2: True
      with assms pt h1 True bt h2
      have "play_loop (log_move (gs\<lparr>turn := turn gs + 1, bot_board := bb, player_board := pb\<rparr>)
               (turn gs + 1) pm ph bm bh) ls' rs' = Some (Inr (w, gs'))"
        by (subst (asm) play_loop.simps) (simp add: Let_def)
      with pt h1 True bt h2 r2 short show ?thesis by (auto intro: continue)
    qed
  qed
qed

lemma log_move_history:
  "move_history (log_move gs t pc ph bc bh) =
     move_history gs @
       [\<lparr>turn_no = t, player_move = pc, player_hit = (if ph then ''hit'' else ''miss''),
         bot_move = bc, bot_hit = (if bh then ''hit'' else ''miss'')\<rparr>]"
  by (simp add: log_move_def)

lemma play_loop_log:
  assumes "play_loop gs ls rs = Some (Inr (w, gs'))"
    and "\<forall>m \<in> set (move_history gs). hit_word (player_hit m) \<and> hit_word (bot_hit m)"
  shows "(\<forall>m \<in> set (move_history gs'). hit_word (player_hit m) \<and> hit_word (bot_hit m)) \<and>
         move_history gs' \<noteq> [] \<and> (w = ''player'' \<or> w = ''bot'') \<and>
         (w = ''player'' \<longrightarrow>
            bot_move (last (move_history gs')) = [] \<and> bot_hit (last (move_history gs')) = ''miss'')"
  using assms
proof (induction "length ls" arbitrary: gs ls rs rule: less_induct)
  case less
  from less.prems(1) show ?case
  proof (cases rule: play_loop_cases)
    case (player_wins bb ph pm ls')
    with less.prems(2) show ?thesis
      by (auto simp: log_move_history hit_word_def)
  next
    case (bot_wins bb ph pm ls' pb bh bm rs')
    with less.prems(2) show ?thesis
      by (auto simp: log_move_history hit_word_def)
  next
    case (continue bb ph pm ls' pb bh bm rs')
    let ?gs = "log_move (gs\<lparr>turn := turn gs + 1, bot_board := bb, player_board := pb\<rparr>)
               (turn gs + 1) pm ph bm bh"
    have "\<forall>m \<in> set (move_history ?gs). hit_word (player_hit m) \<and> hit_word (bot_hit m)"
      using less.prems(2) by (auto simp: log_move_history hit_word_def)
    from less.hyps [OF continue(6) continue(5) this] show ?thesis .
  qed
qed

lemma validate_returns_True:
  "validate_ship_placement fleet fc = Inr ok \<Longrightarrow> ok"
  by (auto simp: validate_ship_placement_def split: sum.splits if_splits)

lemma generate_loop_valid:
  "generate_loop k rs = Some (Inr fleet) \<Longrightarrow> validate_ship_placement fleet True = Inr True"
proof (induction k arbitrary: rs)
  case 0
  then show ?case by simp
next
  case (Suc k)
  let ?st0 = "\<lparr>placed_ships = [], all_cells = {}, all_adjacent = {}\<rparr>"
  from Suc.prems obtain valid st rs' where pf: "place_fleet SHIP_SIZES ?st0 rs = Some (Inr (valid, st, rs'))"
    by (auto split: option.splits sum.splits)
  show ?case
  proof (cases "valid \<and> (\<exists>ok. validate_ship_placement (placed_ships st) True = Inr ok)")
    case True
    then obtain ok where ok: "validate_ship_placement (placed_ships st) True = Inr ok" by blast
    with Suc.prems pf True have "fleet = placed_ships st" by simp
    with ok validate_returns_True [OF ok] show ?thesis by simp
  next
    case False
    with Suc.prems pf have "generate_loop k rs' = Some (Inr fleet)"
      by (auto split: sum.splits if_splits)
    then show ?thesis by (rule Suc.IH)
  qed
qed

section \<open>The claims\<close>

text \<open>
  C1. On every board reached from the constructor by any sequence of \<open>record_shot\<close> calls,
  failing ones included: no cell is both a hit and a miss; when the fleet passes
  \<open>validate_ship_placement\<close> and lies on the board, no hit is in \<open>destroyed_zones\<close>; and a
  cell that is in one of the three sets stays shot, that is every later \<open>record_shot\<close> on it
  fails and changes nothing. A miss may lie in \<open>destroyed_zones\<close> as well: the zone of a sunk
  ship is its whole halo, earlier misses included.
\<close>

theorem shot_cells_stay_shot:
  assumes "GameBoard_init ss = Inr b0" and "b = shoot_all b0 shots"
  shows "hits b \<inter> misses b = {} \<and>
         (validate_ship_placement ss final_check = Inr True \<and> (\<forall>x \<in> fleet_cells ss. in_bounds x) \<longrightarrow>
            hits b \<inter> destroyed_zones b = {}) \<and>
         ((row, col) \<in> hits b \<union> misses b \<union> destroyed_zones b \<longrightarrow>
            (\<forall>more. record_shot (shoot_all b more) row col = (shoot_all b more, Inl AlreadyShot)))"
proof (intro conjI impI allI)
  note i0 = GameBoard_init_inv [OF assms(1)]
  have inv: "board_inv b" and sh: "ships b = ss"
    using i0 shoot_all_inv [of b0 shots] assms(2) shoot_all_ships [of b0 shots] by simp_all
  from inv show "hits b \<inter> misses b = {}" by (auto simp: board_inv_def)
  {
    assume a: "validate_ship_placement ss final_check = Inr True \<and> (\<forall>x \<in> fleet_cells ss. in_bounds x)"
    then obtain acc' where v: "validate_loop 0 {} ss = Inr acc'"
      by (auto simp: validate_ship_placement_def split: sum.splits)
    from shoot_all_zone_sub [of b0 shots] i0 assms(2)
    have "destroyed_zones b \<subseteq> (\<Union>sh \<in> set ss. halo_of sh)" by simp
    moreover from inv sh have "hits b \<subseteq> fleet_cells ss" by (auto simp: board_inv_def)
    moreover have "\<forall>sh \<in> set ss. halo_of sh \<inter> fleet_cells ss = {}"
      using no_hit_in_halo [OF v] a by blast
    ultimately show "hits b \<inter> destroyed_zones b = {}" by blast
  }
  {
    fix more
    assume "(row, col) \<in> hits b \<union> misses b \<union> destroyed_zones b"
    with shoot_all_mono [of b more]
    have "(row, col) \<in> hits (shoot_all b more) \<union> misses (shoot_all b more)
            \<union> destroyed_zones (shoot_all b more)" by blast
    then show "record_shot (shoot_all b more) row col = (shoot_all b more, Inl AlreadyShot)"
      by (rule record_shot_already)
  }
qed

theorem shot_cells_stay_shot_witness:
  "GameBoard_init example_fleet = Inr example_fleet_board \<and>
   validate_ship_placement example_fleet True = Inr True \<and>
   fleet_cells example_fleet \<subseteq> Collect in_bounds \<and>
   (9, 0) \<in> hits (shoot_all example_fleet_board [(9, 0), (5, 5)]) \<and>
   hits (shoot_all example_fleet_board [(9, 0), (5, 5)])
     \<inter> misses (shoot_all example_fleet_board [(9, 0), (5, 5)]) = {} \<and>
   hits (shoot_all example_fleet_board [(9, 0), (5, 5)])
     \<inter> destroyed_zones (shoot_all example_fleet_board [(9, 0), (5, 5)]) = {} \<and>
   record_shot (shoot_all (shoot_all example_fleet_board [(9, 0), (5, 5)]) [(9, 1)]) 9 0 =
     (shoot_all (shoot_all example_fleet_board [(9, 0), (5, 5)]) [(9, 1)], Inl AlreadyShot)"
proof -
  let ?b = "shoot_all example_fleet_board [(9, 0), (5, 5)]"
  have h: "GameBoard_init example_fleet = Inr example_fleet_board"
    by code_simp
  have v: "validate_ship_placement example_fleet True = Inr True"
    by code_simp
  have "\<forall>x \<in> fleet_cells example_fleet. in_bounds x"
    by code_simp
  then have ib: "fleet_cells example_fleet \<subseteq> Collect in_bounds"
    by blast
  have m: "(9, 0) \<in> hits ?b"
    by code_simp
  note c = shot_cells_stay_shot [OF h refl, of "[(9, 0), (5, 5)]" True 9 0]
  have z: "hits ?b \<inter> destroyed_zones ?b = {}"
    using c v ib by blast
  have r: "record_shot (shoot_all ?b [(9, 1)]) 9 0 = (shoot_all ?b [(9, 1)], Inl AlreadyShot)"
    using c m by blast
  show ?thesis
    by (intro conjI h v ib m c [THEN conjunct1] z r)
qed

theorem miss_in_destroyed_zone_counterexample:
  "GameBoard_init [((0, 0), (0, 1))] = Inr example_board \<and>
   (1, 1) \<in> misses (shoot_all example_board [(1, 1), (0, 0), (0, 1)]) \<and>
   (1, 1) \<in> destroyed_zones (shoot_all example_board [(1, 1), (0, 0), (0, 1)])"
  by code_simp

text \<open>
  C2. When a \<open>record_shot\<close> call returns a hit and a ship of the fleet has all its cells
  in \<open>hits\<close> after the call, as the ship whose last cell the call has hit, then every
  cell of the board that touches a cell of that ship, also diagonally, and belongs to no ship
  of the fleet is in \<open>destroyed_zones\<close> after the call.
\<close>

theorem destroyed_ship_halo_marked:
  assumes "record_shot b row col = (b', Inr True)"
    and "(start, end) \<in> set (ships b)"
    and "get_ship_cells start end = Inr cs"
    and "set cs \<subseteq> hits b'"
    and "y \<in> set cs" and "adjacent8 y n" and "in_bounds n"
    and "n \<notin> fleet_cells (ships b)"
  shows "n \<in> destroyed_zones b'"
  using assms(1)
proof (cases rule: record_shot_cases)
  case already
  then show ?thesis by simp
next
  case (hit r)
  from hit(4) have r: "r = None" by (cases r) auto
  let ?b1 = "b\<lparr>hits := insert (row, col) (hits b)\<rparr>"
  from check_destroyed_loop_fields [OF hit(3)] have "hits b' = hits ?b1" by simp
  with assms(4) have sub: "set cs \<subseteq> hits ?b1" by simp
  from check_destroyed_loop_zone [OF hit(3) r assms(2,3) sub]
  have z: "get_adjacent_cells cs - set cs \<subseteq> destroyed_zones b'" .
  from assms(2,3) have "set cs \<subseteq> fleet_cells (ships b)"
    by (force simp: fleet_cells_def cells_of_def)
  with assms(8) have "n \<notin> set cs" by blast
  with assms(5,6,7) have "n \<in> get_adjacent_cells cs - set cs"
    by (auto simp: get_adjacent_cells_iff)
  with z show ?thesis by blast
next
  case miss
  then show ?thesis by simp
qed

theorem destroyed_ship_halo_marked_witness:
  "record_shot (shoot_all example_board [(0, 0)]) 0 1 =
     (fst (record_shot (shoot_all example_board [(0, 0)]) 0 1), Inr True) \<and>
   ((0, 0), (0, 1)) \<in> set (ships (shoot_all example_board [(0, 0)])) \<and>
   get_ship_cells (0, 0) (0, 1) = Inr [(0, 0), (0, 1)] \<and>
   (0 :: int, 1 :: int) \<in> set [(0, 0), (0, 1)] \<and>
   set [(0, 0), (0, 1)] \<subseteq> hits (fst (record_shot (shoot_all example_board [(0, 0)]) 0 1)) \<and>
   adjacent8 (0, 1) (1, 2) \<and> in_bounds (1, 2) \<and>
   (1, 2) \<notin> fleet_cells (ships (shoot_all example_board [(0, 0)])) \<and>
   (1, 2) \<in> destroyed_zones (fst (record_shot (shoot_all example_board [(0, 0)]) 0 1))"
proof -
  let ?b = "shoot_all example_board [(0, 0)]"
  have h1: "record_shot ?b 0 1 = (fst (record_shot ?b 0 1), Inr True)"
    by code_simp
  have h2: "((0, 0), (0, 1)) \<in> set (ships ?b)"
    by code_simp
  have h3: "get_ship_cells (0, 0) (0, 1) = Inr [(0, 0), (0, 1)]"
    by code_simp
  have h4: "(0 :: int, 1 :: int) \<in> set [(0, 0), (0, 1)]"
    by simp
  have h5: "set [(0, 0), (0, 1)] \<subseteq> hits (fst (record_shot ?b 0 1))"
    by code_simp
  have h6: "adjacent8 (0, 1) (1, 2)"
    by code_simp
  have h7: "in_bounds (1, 2)"
    by code_simp
  have h8: "(1, 2) \<notin> fleet_cells (ships ?b)"
    by code_simp
  note c = destroyed_ship_halo_marked [OF h1 h2 h3 h5 h4 h6 h7 h8]
  show ?thesis
    by (intro conjI h1 h2 h3 h4 h5 h6 h7 h8 c)
qed

text \<open>
  C3. A fleet on which \<open>validate_ship_placement\<close> with \<open>final_check = True\<close> returns has
  exactly ten ships, its sorted ship sizes are the sorted required sizes, and no two of its
  ships share a cell; and when its cells are cells of the board, with row and column from 0
  to 9 as the data model has them and as \<open>parse_coordinates\<close> and the generator produce
  them, no cell of one ship touches a cell of another ship, diagonals included.
\<close>

theorem validated_fleet_sound:
  assumes "validate_ship_placement fleet True = Inr True"
  shows "length fleet = 10 \<and>
         sort (map (\<lambda>sh. int (card (cells_of sh))) fleet) = sort [4, 3, 3, 2, 2, 2, 1, 1, 1, 1] \<and>
         (\<forall>i < length fleet. \<forall>j < length fleet. i \<noteq> j \<longrightarrow>
            cells_of (fleet ! i) \<inter> cells_of (fleet ! j) = {}) \<and>
         ((\<forall>x \<in> fleet_cells fleet. in_bounds x) \<longrightarrow>
            (\<forall>i < length fleet. \<forall>j < length fleet. i \<noteq> j \<longrightarrow>
               (\<forall>x \<in> cells_of (fleet ! i). \<forall>y \<in> cells_of (fleet ! j). \<not> adjacent8 x y)))"
proof -
  from assms obtain acc' ls where v: "validate_loop 0 {} fleet = Inr acc'"
    and n: "length fleet = length SHIP_SIZES"
    and l: "ship_lengths fleet = Inr ls" and srt: "sort ls = sort SHIP_SIZES"
    by (auto simp: validate_ship_placement_def split: sum.splits if_splits)
  from n have "length fleet = 10" by (simp add: SHIP_SIZES_def)
  moreover from ship_lengths_eq [OF l] srt
  have "sort (map (\<lambda>sh. int (card (cells_of sh))) fleet) = sort [4, 3, 3, 2, 2, 2, 1, 1, 1, 1]"
    by (simp add: SHIP_SIZES_def)
  moreover have "\<forall>i < length fleet. \<forall>j < length fleet. i \<noteq> j \<longrightarrow>
            cells_of (fleet ! i) \<inter> cells_of (fleet ! j) = {}"
    using validate_loop_pairwise(1) [OF v] by blast
  moreover have "(\<forall>x \<in> fleet_cells fleet. in_bounds x) \<longrightarrow>
            (\<forall>i < length fleet. \<forall>j < length fleet. i \<noteq> j \<longrightarrow>
               (\<forall>x \<in> cells_of (fleet ! i). \<forall>y \<in> cells_of (fleet ! j). \<not> adjacent8 x y))"
    using validate_loop_pairwise(2) [OF v] by blast
  ultimately show ?thesis by blast
qed

theorem validated_fleet_sound_witness:
  "validate_ship_placement example_fleet True = Inr True \<and>
   fleet_cells example_fleet \<subseteq> Collect in_bounds \<and>
   length example_fleet = 10 \<and>
   sort (map (\<lambda>sh. int (card (cells_of sh))) example_fleet) = sort [4, 3, 3, 2, 2, 2, 1, 1, 1, 1] \<and>
   cells_of (example_fleet ! 0) \<inter> cells_of (example_fleet ! 1) = {} \<and>
   (0, 3) \<in> cells_of (example_fleet ! 0) \<and> (0, 6) \<in> cells_of (example_fleet ! 1) \<and>
   \<not> adjacent8 (0, 3) (0, 6)"
proof -
  have v: "validate_ship_placement example_fleet True = Inr True"
    by code_simp
  have "\<forall>x \<in> fleet_cells example_fleet. in_bounds x"
    by code_simp
  then have ib: "fleet_cells example_fleet \<subseteq> Collect in_bounds"
    by blast
  have x: "(0, 3) \<in> cells_of (example_fleet ! 0)"
    by code_simp
  have y: "(0, 6) \<in> cells_of (example_fleet ! 1)"
    by code_simp
  note c = validated_fleet_sound [OF v]
  have n: "length example_fleet = 10"
    using c by blast
  have d: "cells_of (example_fleet ! 0) \<inter> cells_of (example_fleet ! 1) = {}"
    by (rule c [THEN conjunct2, THEN conjunct2, THEN conjunct1, rule_format])
       (simp_all add: n)
  have t: "\<not> adjacent8 (0, 3) (0, 6)"
    by (rule c [THEN conjunct2, THEN conjunct2, THEN conjunct2, rule_format, OF _ _ _ _ x y])
       (use ib n in auto)
  show ?thesis
    by (intro conjI v ib n c [THEN conjunct2, THEN conjunct1] d x y t)
qed

text \<open>
  C4. On every board reached from the constructor, \<open>record_shot\<close> fails exactly when the
  cell is already in \<open>hits\<close>, \<open>misses\<close> or \<open>destroyed_zones\<close>; a failing call raises the
  already-shot error and leaves the board as it was; and a second shot at the same cell
  always fails.
\<close>

theorem record_shot_fails_iff_already_shot:
  assumes "GameBoard_init ss = Inr b0" and "b = shoot_all b0 shots"
  shows "((\<exists>e. snd (record_shot b row col) = Inl e) \<longleftrightarrow>
            (row, col) \<in> hits b \<union> misses b \<union> destroyed_zones b) \<and>
         (\<forall>e. snd (record_shot b row col) = Inl e \<longrightarrow>
            e = AlreadyShot \<and> fst (record_shot b row col) = b) \<and>
         snd (record_shot (fst (record_shot b row col)) row col) = Inl AlreadyShot"
proof -
  have inv: "board_inv b"
    using GameBoard_init_inv [OF assms(1)] shoot_all_inv [of b0 shots] assms(2) by simp
  obtain b' res where rs: "record_shot b row col = (b', res)"
    by (cases "record_shot b row col")
  from rs show ?thesis
  proof (cases rule: record_shot_cases)
    case already
    with rs record_shot_already [of row col b] show ?thesis by simp
  next
    case (hit r)
    let ?b1 = "b\<lparr>hits := insert (row, col) (hits b)\<rparr>"
    from inv have "\<forall>sh \<in> set (ships b). straight sh" by (simp add: board_inv_def)
    from check_destroyed_loop_ok [OF this, of ?b1] hit(3) have "r = None" by simp
    with hit(4) have res: "res = Inr True" by simp
    from check_destroyed_loop_fields [OF hit(3)] have "(row, col) \<in> hits b'" by simp
    then have "record_shot b' row col = (b', Inl AlreadyShot)"
      by (simp add: record_shot_already)
    with rs res hit(1) show ?thesis by simp
  next
    case miss
    then have "(row, col) \<in> misses b'" by simp
    then have "record_shot b' row col = (b', Inl AlreadyShot)"
      by (simp add: record_shot_already)
    with rs miss(1,4) show ?thesis by simp
  qed
qed

theorem record_shot_fails_iff_already_shot_witness:
  "GameBoard_init [((0, 0), (0, 1))] = Inr example_board \<and>
   (0, 0) \<in> hits (shoot_all example_board [(0, 0), (5, 5)]) \<and>
   snd (record_shot (shoot_all example_board [(0, 0), (5, 5)]) 0 0) = Inl AlreadyShot \<and>
   fst (record_shot (shoot_all example_board [(0, 0), (5, 5)]) 0 0) =
     shoot_all example_board [(0, 0), (5, 5)] \<and>
   snd (record_shot (fst (record_shot (shoot_all example_board [(0, 0), (5, 5)]) 0 0)) 0 0) =
     Inl AlreadyShot"
proof -
  let ?b = "shoot_all example_board [(0, 0), (5, 5)]"
  have h: "GameBoard_init [((0, 0), (0, 1))] = Inr example_board"
    by code_simp
  have m: "(0, 0) \<in> hits ?b"
    by code_simp
  have f: "snd (record_shot ?b 0 0) = Inl AlreadyShot"
    by code_simp
  note c = record_shot_fails_iff_already_shot [OF h refl, of "[(0, 0), (5, 5)]" 0 0]
  from c f have u: "fst (record_shot ?b 0 0) = ?b"
    by blast
  show ?thesis
    by (intro conjI h m f u c [THEN conjunct2, THEN conjunct2])
qed

text \<open>
  C5. When \<open>play_game\<close> returns, every \<open>player_hit\<close> and \<open>bot_hit\<close> field of the move log,
  the last entry included, is one of the strings \<open>hit\<close> and \<open>miss\<close>; and when the player has
  won, the last entry has a blank \<open>bot_move\<close> and the string \<open>miss\<close> as \<open>bot_hit\<close>:
  \<open>log_move\<close> takes the bot's result as a boolean and is called with \<open>False\<close>, so the field
  is never blank.
\<close>

theorem move_log_fields:
  assumes "play_game pb bb ls rs = Some (Inr (winner, gs))"
  shows "(\<forall>m \<in> set (move_history gs).
            (player_hit m = ''hit'' \<or> player_hit m = ''miss'') \<and>
            (bot_hit m = ''hit'' \<or> bot_hit m = ''miss'')) \<and>
         move_history gs \<noteq> [] \<and>
         (winner = ''player'' \<longrightarrow>
            bot_move (last (move_history gs)) = [] \<and>
            bot_hit (last (move_history gs)) = ''miss'')"
proof -
  let ?gs0 = "\<lparr>player_board = pb, bot_board = bb, turn = 0, move_history = []\<rparr>"
  have "\<forall>m \<in> set (move_history ?gs0). hit_word (player_hit m) \<and> hit_word (bot_hit m)"
    by simp
  from play_loop_log [OF assms [unfolded play_game_def] this] show ?thesis
    by (simp add: hit_word_def)
qed

theorem move_log_fields_witness:
  "play_game example_board example_board [''zz'', ''a1'', ''A1'', ''a2''] [3, 3] =
     Some (Inr (''player'',
       snd (projr (the (play_game example_board example_board
         [''zz'', ''a1'', ''A1'', ''a2''] [3, 3]))))) \<and>
   map player_hit (move_history (snd (projr (the (play_game example_board example_board
         [''zz'', ''a1'', ''A1'', ''a2''] [3, 3]))))) = [''hit'', ''hit''] \<and>
   map bot_hit (move_history (snd (projr (the (play_game example_board example_board
         [''zz'', ''a1'', ''A1'', ''a2''] [3, 3]))))) = [''miss'', ''miss''] \<and>
   bot_move (last (move_history (snd (projr (the (play_game example_board example_board
         [''zz'', ''a1'', ''A1'', ''a2''] [3, 3])))))) = []"
proof -
  let ?r = "play_game example_board example_board [''zz'', ''a1'', ''A1'', ''a2''] [3, 3]"
  have g: "?r = Some (Inr (''player'', snd (projr (the ?r))))"
    by code_simp
  have p: "map player_hit (move_history (snd (projr (the ?r)))) = [''hit'', ''hit'']"
    by code_simp
  have q: "map bot_hit (move_history (snd (projr (the ?r)))) = [''miss'', ''miss'']"
    by code_simp
  from move_log_fields [OF g]
  have b: "bot_move (last (move_history (snd (projr (the ?r))))) = []"
    by blast
  show ?thesis
    by (intro conjI g p q b)
qed

theorem bot_hit_not_blank_counterexample:
  "play_game example_board one_cell_board [''A1''] [] = Some (Inr (''player'', won_state)) \<and>
   bot_move (last (move_history won_state)) = [] \<and>
   bot_hit (last (move_history won_state)) = ''miss'' \<and>
   bot_hit (last (move_history won_state)) \<noteq> []"
  by code_simp

text \<open>
  C6. For every cell of the board, parsing the formatted cell gives the cell back; and for
  every valid coordinate string, a letter \<open>A\<close> to \<open>J\<close> in either case followed by the
  numeral of an integer from 1 to 10, formatting the parsed cell gives the string in upper
  case.
\<close>

theorem codec_roundtrip:
  "(0 \<le> row \<and> row < BOARD_SIZE \<and> 0 \<le> col \<and> col < BOARD_SIZE \<longrightarrow>
      parse_coordinates (format_coordinates row col) = Inr (row, col)) \<and>
   (valid_coordinate_string s \<longrightarrow>
      (\<exists>r c. parse_coordinates s = Inr (r, c) \<and> format_coordinates r c = upper s))"
proof (intro conjI impI)
  assume a: "0 \<le> row \<and> row < BOARD_SIZE \<and> 0 \<le> col \<and> col < BOARD_SIZE"
  define l :: char where "l = char_of (65 + row)"
  from a have r: "row \<in> set [0..9]" by (simp add: BOARD_SIZE_def)
  from rows r have l: "l \<in> set ''ABCDEFGHIJ''" and rw: "int (of_char l) - 65 = row"
    unfolding l_def by blast+
  from l have l': "l \<in> set ''ABCDEFGHIJabcdefghij''" by auto
  from a have n: "col + 1 \<in> set [1..10]" by (simp add: BOARD_SIZE_def)
  from upper_letter_fixed l have "upper_char l = l" by blast
  with parse_letter_numeral [OF l' n] rw
  show "parse_coordinates (format_coordinates row col) = Inr (row, col)"
    by (simp add: format_coordinates_def l_def)
next
  assume "valid_coordinate_string s"
  then obtain l ds where s: "s = l # ds" and l: "l \<in> set ''ABCDEFGHIJabcdefghij''"
    and ds: "ds \<in> set (map python_str [1..10])"
    by (cases s) (auto simp: valid_coordinate_string_def)
  from ds obtain n where n: "n \<in> set [1..10]" and dn: "ds = python_str n" by auto
  from numerals n have up: "upper (python_str n) = python_str n" by blast
  from letters l have ch: "char_of (65 + (int (of_char (upper_char l)) - 65)) = upper_char l"
    and l223: "(of_char l :: nat) \<noteq> 223"
    by blast+
  have "format_coordinates (int (of_char (upper_char l)) - 65) (n - 1) = upper s"
    using ch up s dn by (simp add: format_coordinates_def upper_Cons [OF l223])
  with parse_letter_numeral [OF l n] s dn
  show "\<exists>r c. parse_coordinates s = Inr (r, c) \<and> format_coordinates r c = upper s"
    by blast
qed

theorem codec_roundtrip_witness:
  "(0 :: int) \<le> 3 \<and> (3 :: int) < BOARD_SIZE \<and> (0 :: int) \<le> 9 \<and> (9 :: int) < BOARD_SIZE \<and>
   parse_coordinates (format_coordinates 3 9) = Inr (3, 9) \<and>
   valid_coordinate_string ''d10'' \<and>
   (\<exists>r c. parse_coordinates ''d10'' = Inr (r, c) \<and> format_coordinates r c = upper ''d10'')"
proof -
  have b: "(0 :: int) \<le> 3" "(3 :: int) < BOARD_SIZE" "(0 :: int) \<le> 9" "(9 :: int) < BOARD_SIZE"
    by (simp_all add: BOARD_SIZE_def)
  have v: "valid_coordinate_string ''d10''"
    by code_simp
  note c = codec_roundtrip [of 3 9 "''d10''"]
  from c b have p: "parse_coordinates (format_coordinates 3 9) = Inr (3, 9)"
    by blast
  from c v have q: "\<exists>r c. parse_coordinates ''d10'' = Inr (r, c) \<and> format_coordinates r c = upper ''d10''"
    by blast
  show ?thesis
    by (intro conjI b p v q)
qed

text \<open>
  C7. Whatever the random draws, when \<open>generate_bot_ships\<close> returns a fleet, rather than
  raising or running out of draws, that fleet passes \<open>validate_ship_placement\<close> with
  \<open>final_check = True\<close>.
\<close>

theorem generated_fleet_valid:
  assumes "generate_bot_ships max_attempts rs = Some (Inr fleet)"
  shows "validate_ship_placement fleet True = Inr True"
  using assms unfolding generate_bot_ships_def by (rule generate_loop_valid)

theorem generated_fleet_valid_witness:
  "generate_bot_ships 1000 example_draws = Some (Inr example_fleet) \<and>
   validate_ship_placement example_fleet True = Inr True"
proof -
  have g: "generate_bot_ships 1000 example_draws = Some (Inr example_fleet)"
    by code_simp
  from generated_fleet_valid [OF g] g show ?thesis
    by (intro conjI)
qed

text \<open>
  C8. On every board reached from the constructor, \<open>has_ships_remaining\<close> returns a
  boolean, and it returns false exactly when the cell set of every ship of the fleet is a
  subset of \<open>hits\<close>.
\<close>

theorem has_ships_remaining_iff:
  assumes "GameBoard_init ss = Inr b0" and "b = shoot_all b0 shots"
  shows "(has_ships_remaining b = Inr False \<or> has_ships_remaining b = Inr True) \<and>
         (has_ships_remaining b = Inr False \<longleftrightarrow> (\<forall>sh \<in> set ss. cells_of sh \<subseteq> hits b))"
proof -
  have inv: "board_inv b" and sh: "ships b = ss"
    using GameBoard_init_inv [OF assms(1)] shoot_all_inv [of b0 shots] assms(2)
      shoot_all_ships [of b0 shots] by simp_all
  from inv have "\<forall>sh \<in> set (ships b). straight sh" by (simp add: board_inv_def)
  from ships_remaining_loop_eq [OF this, of "hits b"] sh show ?thesis
    by (auto simp: has_ships_remaining_def)
qed

theorem has_ships_remaining_iff_witness:
  "GameBoard_init [((0, 0), (0, 1))] = Inr example_board \<and>
   has_ships_remaining (shoot_all example_board [(0, 0), (0, 1)]) = Inr False \<and>
   cells_of ((0, 0), (0, 1)) \<subseteq> hits (shoot_all example_board [(0, 0), (0, 1)])"
proof -
  have h: "GameBoard_init [((0, 0), (0, 1))] = Inr example_board"
    by code_simp
  have f: "has_ships_remaining (shoot_all example_board [(0, 0), (0, 1)]) = Inr False"
    by code_simp
  note c = has_ships_remaining_iff [OF h refl, of "[(0, 0), (0, 1)]"]
  from c f have a: "cells_of ((0, 0), (0, 1)) \<subseteq> hits (shoot_all example_board [(0, 0), (0, 1)])"
    by simp
  show ?thesis
    by (intro conjI h f a)
qed

text \<open>
  C9. On every board reached from the constructor by any sequence of \<open>record_shot\<close> calls,
  failing ones included, every hit is a ship cell and no miss is a ship cell; \<open>ship_cells\<close>
  stays the union of the cell sets of the fleet.
\<close>

theorem hits_are_ship_cells:
  assumes "GameBoard_init ss = Inr b0"
  shows "hits (shoot_all b0 shots) \<subseteq> ship_cells (shoot_all b0 shots) \<and>
         misses (shoot_all b0 shots) \<inter> ship_cells (shoot_all b0 shots) = {} \<and>
         ship_cells (shoot_all b0 shots) = fleet_cells ss"
  using shoot_all_inv [of b0 shots] GameBoard_init_inv [OF assms] shoot_all_ships [of b0 shots]
  by (auto simp: board_inv_def)

theorem hits_are_ship_cells_witness:
  "GameBoard_init [((0, 0), (0, 1))] = Inr example_board \<and>
   hits (shoot_all example_board [(0, 0), (5, 5), (0, 0)]) = {(0, 0)} \<and>
   misses (shoot_all example_board [(0, 0), (5, 5), (0, 0)]) = {(5, 5)} \<and>
   hits (shoot_all example_board [(0, 0), (5, 5), (0, 0)])
     \<subseteq> ship_cells (shoot_all example_board [(0, 0), (5, 5), (0, 0)]) \<and>
   misses (shoot_all example_board [(0, 0), (5, 5), (0, 0)])
     \<inter> ship_cells (shoot_all example_board [(0, 0), (5, 5), (0, 0)]) = {} \<and>
   ship_cells (shoot_all example_board [(0, 0), (5, 5), (0, 0)]) = fleet_cells [((0, 0), (0, 1))]"
proof -
  have h: "GameBoard_init [((0, 0), (0, 1))] = Inr example_board"
    by code_simp
  have hs: "hits (shoot_all example_board [(0, 0), (5, 5), (0, 0)]) = {(0, 0)}"
    by code_simp
  have ms: "misses (shoot_all example_board [(0, 0), (5, 5), (0, 0)]) = {(5, 5)}"
    by code_simp
  note c = hits_are_ship_cells [OF h, of "[(0, 0), (5, 5), (0, 0)]"]
  show ?thesis
    by (intro conjI h hs ms c [THEN conjunct1] c [THEN conjunct2, THEN conjunct1]
          c [THEN conjunct2, THEN conjunct2])
qed




end
